theory Spec2Isabelle
  imports
    Main
    "HOL-Library.Word"
    "HOL-Library.Log_Nat"
    "HOL-Library.Signed_Division"
    "HOL-Library.Monad_Syntax"
begin

unbundle bit_operations_syntax

section \<open>Errors and basic types\<close>

text \<open>
  The error values of packages \<^verbatim>\<open>consts\<close> and \<^verbatim>\<open>pow\<close> that the modelled
  functions return, and \<open>Panic\<close> for a Go run-time panic (index out of range, a
  panicking \<^verbatim>\<open>Must\<close> helper).
\<close>

datatype error =
    ErrInvalidTrit nat
  | ErrInvalidTrytes
  | ErrInvalidTritsLength
  | ErrInvalidBytesLength
  | ErrInvalidTrytesForProofOfWork
  | Panic

text \<open>\<^verbatim>\<open>type Trits = []int8\<close> and \<^verbatim>\<open>type Trytes = string\<close> (a Go string is a byte
  sequence).\<close>

type_synonym Trits = "8 word list"
type_synonym Trytes = string

definition TrinaryRadix :: nat where "TrinaryRadix = 3"
definition HashTrinarySize :: nat where "HashTrinarySize = 243"
definition HashBytesSize :: nat where "HashBytesSize = 48"
definition NonceTrinarySize :: nat where "NonceTrinarySize = 81"
definition IntLength :: nat where "IntLength = 12"
definition StateSize :: nat where "StateSize = 729"
definition NumberOfRounds :: nat where "NumberOfRounds = 27"
definition TryteAlphabet :: string where "TryteAlphabet = ''9ABCDEFGHIJKLMNOPQRSTUVWXYZ''"

section \<open>Package trinary: trits\<close>

definition ValidTrit :: "8 word \<Rightarrow> bool" where
  "ValidTrit t = (if t = - 1 \<or> t = 0 \<or> t = 1 then True else False)"

text \<open>\<^verbatim>\<open>ValidTrits\<close> returns the error of the first invalid trit, \<open>None\<close> for \<^verbatim>\<open>nil\<close>.\<close>

fun ValidTrits_from :: "nat \<Rightarrow> Trits \<Rightarrow> error option" where
  "ValidTrits_from i [] = None"
| "ValidTrits_from i (tt # t) =
     (if \<not> ValidTrit tt then Some (ErrInvalidTrit i) else ValidTrits_from (Suc i) t)"

definition ValidTrits :: "Trits \<Rightarrow> error option" where
  "ValidTrits t = ValidTrits_from 0 t"

text \<open>The mathematical value of a little-endian balanced-ternary digit sequence.\<close>

fun trits_value :: "Trits \<Rightarrow> int" where
  "trits_value [] = 0"
| "trits_value (t # ts) = sint t + 3 * trits_value ts"

text \<open>The largest value of \<open>k\<close> balanced trits, \<open>(3 ^ k - 1) div 2\<close>.\<close>

fun bt_max :: "nat \<Rightarrow> int" where
  "bt_max 0 = 0"
| "bt_max (Suc k) = 3 * bt_max k + 1"


subsection \<open>Trinary addition\<close>

definition sum_trit :: "8 word \<Rightarrow> 8 word \<Rightarrow> 8 word" where
  "sum_trit a b = (let s = a + b in if s = 2 then - 1 else if s = - 2 then 1 else s)"

definition cons :: "8 word \<Rightarrow> 8 word \<Rightarrow> 8 word" where
  "cons a b = (if a = b then a else 0)"

definition any :: "8 word \<Rightarrow> 8 word \<Rightarrow> 8 word" where
  "any a b = (let s = a + b in if 0 <s s then 1 else if s <s 0 then - 1 else 0)"

definition fullAdd :: "8 word \<Rightarrow> 8 word \<Rightarrow> 8 word \<Rightarrow> 8 word \<times> 8 word" where
  "fullAdd a b c =
     (let sA = sum_trit a b;
          cA = cons a b;
          cB = cons sA c;
          cOut = any cA cB;
          sOut = sum_trit sA c
      in (sOut, cOut))"

text \<open>
  The loop of \<^verbatim>\<open>AddTrits\<close>: the first argument counts the iterations that remain
  (\<^verbatim>\<open>len(out) - i\<close>); the trits written to \<^verbatim>\<open>out[i], out[i+1], ...\<close> are returned in
  order.
\<close>

fun AddTrits_loop :: "nat \<Rightarrow> nat \<Rightarrow> Trits \<Rightarrow> Trits \<Rightarrow> 8 word \<Rightarrow> Trits" where
  "AddTrits_loop 0 i a b carry = []"
| "AddTrits_loop (Suc n) i a b carry =
     (let aI = (if i < length a then a ! i else 0);
          bI = (if i < length b then b ! i else 0);
          fA = fullAdd aI bI carry
      in fst fA # AddTrits_loop n (Suc i) a b (snd fA))"


definition AddTrits :: "Trits \<Rightarrow> Trits \<Rightarrow> Trits" where
  "AddTrits a b =
     (let maxLen = max (length a) (length b)
      in if maxLen = 0 then [0] else AddTrits_loop maxLen 0 a b 0)"

subsection \<open>Integers and trits\<close>

text \<open>Go's \<^verbatim>\<open>/\<close> and \<^verbatim>\<open>%\<close> on \<^verbatim>\<open>int64\<close> truncate towards zero.\<close>

definition div64 :: "64 word \<Rightarrow> 64 word \<Rightarrow> 64 word" where
  "div64 a b = word_of_int (sint a sdiv sint b)"

definition mod64 :: "64 word \<Rightarrow> 64 word \<Rightarrow> 64 word" where
  "mod64 a b = word_of_int (sint a smod sint b)"

text \<open>
  The conversion \<^verbatim>\<open>float64(x)\<close> of an integer: the nearest value with a 53-bit
  significand, ties to the even significand (IEEE 754 binary64; no \<^verbatim>\<open>int64\<close> is out of
  its exponent range). The result is an integer again, so \<^verbatim>\<open>math.Floor\<close> leaves it
  unchanged.
\<close>

definition float64_of_int :: "int \<Rightarrow> int" where
  "float64_of_int x =
     (let m = \<bar>x\<bar>; e = bitlen m - 53
      in if e \<le> 0 then x
         else let u = 2 ^ nat e; q = m div u; r = m mod u;
                  q' = (if u < 2 * r \<or> (2 * r = u \<and> odd q) then q + 1 else q)
              in sgn x * (q' * u))"

text \<open>
  The loop of \<^verbatim>\<open>IntToTrits\<close>. Writing \<^verbatim>\<open>dest[i]\<close> beyond the allocated length panics
  (\<open>None\<close>).
\<close>

function IntToTrits_loop :: "64 word \<Rightarrow> nat \<Rightarrow> Trits \<Rightarrow> Trits option" where
  "IntToTrits_loop absoluteValue i dest =
     (if 0 <s absoluteValue then
        (let remainder = mod64 absoluteValue 3;
             quotient = (word_of_int (float64_of_int (sint (div64 absoluteValue 3))) :: 64 word);
             remainder' = (if 1 <s remainder then - 1 else remainder);
             absoluteValue' = (if 1 <s remainder then quotient + 1 else quotient)
         in if i < length dest
            then IntToTrits_loop absoluteValue' (Suc i) (dest[i := ucast remainder'])
            else None)
      else Some dest)"
  by pat_completeness auto
termination
  by (relation "measure (\<lambda>(a, i, dest). length dest - i)") auto

declare IntToTrits_loop.simps [simp del]

text \<open>
  \<^verbatim>\<open>IntToTrits\<close>. The length of \<^verbatim>\<open>dest\<close> is computed by the source in floating point,
  \<^verbatim>\<open>int(1+math.Floor(math.Log(2*math.Max(1, math.Abs(float64(value))))/math.Log(3)))\<close>;
  the value of that expression is the parameter \<open>destLen\<close> here, so that no result
  below rests on how \<^verbatim>\<open>math.Log\<close> rounds.
\<close>

definition IntToTrits :: "nat \<Rightarrow> 64 word \<Rightarrow> error + Trits" where
  "IntToTrits destLen val =
     (if val = 0 then Inr [0]
      else let dest = replicate destLen 0;
               absoluteValue = (if val <s 0 then - val else val)
           in case IntToTrits_loop absoluteValue 0 dest of
                None \<Rightarrow> Inl Panic
              | Some dest \<Rightarrow> Inr (if val <s 0 then map uminus dest else dest))"

definition TritsToInt :: "Trits \<Rightarrow> 64 word" where
  "TritsToInt t = fold (\<lambda>x val. val * 3 + scast x) (rev t) 0"

subsection \<open>Trits and trytes\<close>

definition TryteToTritsLUT :: "Trits list" where
  "TryteToTritsLUT =
    [[0, 0, 0], [1, 0, 0], [- 1, 1, 0], [0, 1, 0],
     [1, 1, 0], [- 1, - 1, 1], [0, - 1, 1], [1, - 1, 1],
     [- 1, 0, 1], [0, 0, 1], [1, 0, 1], [- 1, 1, 1],
     [0, 1, 1], [1, 1, 1], [- 1, - 1, - 1], [0, - 1, - 1],
     [1, - 1, - 1], [- 1, 0, - 1], [0, 0, - 1], [1, 0, - 1],
     [- 1, 1, - 1], [0, 1, - 1], [1, 1, - 1], [- 1, - 1, 0],
     [0, - 1, 0], [1, - 1, 0], [- 1, 0, 0]]"

definition CanTritsToTrytes :: "Trits \<Rightarrow> bool" where
  "CanTritsToTrytes trits = (if length trits = 0 then False else length trits mod 3 = 0)"

text \<open>The index into the alphabet that \<^verbatim>\<open>TritsToTrytes\<close> computes for one group of
  three trits, in \<^verbatim>\<open>int8\<close> arithmetic.\<close>

definition tryte_index :: "8 word \<Rightarrow> 8 word \<Rightarrow> 8 word \<Rightarrow> 8 word" where
  "tryte_index a b c =
     (let j = a + b * 3 + c * 9 in if j <s 0 then j + of_nat (length TryteAlphabet) else j)"

text \<open>
  The loop of \<^verbatim>\<open>TritsToTrytes\<close>; the first argument counts the iterations that remain.
  Indexing \<^verbatim>\<open>TryteAlphabet[j]\<close> with \<open>j\<close> outside \<open>0..26\<close> panics (\<open>None\<close>).
\<close>

fun TritsToTrytes_loop :: "nat \<Rightarrow> nat \<Rightarrow> Trits \<Rightarrow> Trytes option" where
  "TritsToTrytes_loop 0 i trits = Some []"
| "TritsToTrytes_loop (Suc n) i trits =
     (let j = tryte_index (trits ! (i * 3)) (trits ! (i * 3 + 1)) (trits ! (i * 3 + 2))
      in if 0 \<le>s j \<and> sint j < int (length TryteAlphabet)
         then map_option (Cons (TryteAlphabet ! nat (sint j))) (TritsToTrytes_loop n (Suc i) trits)
         else None)"

definition TritsToTrytes :: "Trits \<Rightarrow> error + Trytes" where
  "TritsToTrytes trits =
     (if \<not> CanTritsToTrytes trits then Inl ErrInvalidTritsLength
      else case TritsToTrytes_loop (length trits div 3) 0 trits of
             None \<Rightarrow> Inl Panic
           | Some out \<Rightarrow> Inr out)"

text \<open>\<^verbatim>\<open>ValidTrytes\<close>: the regular expression \<^verbatim>\<open>^[9A-Z]+$\<close>.\<close>

definition tryte_char :: "char \<Rightarrow> bool" where
  "tryte_char c = (c = CHR ''9'' \<or> (65 \<le> (of_char c :: nat) \<and> (of_char c :: nat) \<le> 90))"

definition ValidTrytes :: "Trytes \<Rightarrow> error option" where
  "ValidTrytes trytes =
     (if \<not> (trytes \<noteq> [] \<and> list_all tryte_char trytes) then Some ErrInvalidTrytes else None)"

text \<open>\<^verbatim>\<open>strings.Index\<close> for a needle of one byte: the first position, or \<open>-1\<close>.\<close>

fun strings_Index :: "string \<Rightarrow> char \<Rightarrow> int" where
  "strings_Index [] c = - 1"
| "strings_Index (x # xs) c =
     (if x = c then 0 else (let r = strings_Index xs c in if r < 0 then - 1 else r + 1))"

fun TrytesToTrits_loop :: "Trytes \<Rightarrow> Trits option" where
  "TrytesToTrits_loop [] = Some []"
| "TrytesToTrits_loop (c # cs) =
     (let idx = strings_Index TryteAlphabet c
      in if 0 \<le> idx \<and> idx < int (length TryteToTritsLUT)
         then map_option (append (TryteToTritsLUT ! nat idx)) (TrytesToTrits_loop cs)
         else None)"

definition TrytesToTrits :: "Trytes \<Rightarrow> error + Trits" where
  "TrytesToTrits trytes =
     (case ValidTrytes trytes of
        Some err \<Rightarrow> Inl err
      | None \<Rightarrow> (case TrytesToTrits_loop trytes of None \<Rightarrow> Inl Panic | Some trits \<Rightarrow> Inr trits))"

definition ReverseTrits :: "Trits \<Rightarrow> Trits" where
  "ReverseTrits trits = rev trits"

section \<open>Package bigint\<close>

text \<open>
  The source of package \<^verbatim>\<open>bigint\<close> is not among the files; its operations are modelled
  from the specification (section 4.2): a 384-bit unsigned integer is twelve 32-bit limbs,
  least significant limb first. A panic of a helper is \<open>None\<close>.
\<close>

text \<open>The number that a little-endian sequence of limbs stands for.\<close>

fun limbs_value :: "32 word list \<Rightarrow> nat" where
  "limbs_value [] = 0"
| "limbs_value (x # xs) = unat x + 2 ^ 32 * limbs_value xs"

text \<open>Modelled from the spec: \<^verbatim>\<open>is_null\<close> of package bigint, true when every limb is zero.\<close>

definition bigint_IsNull :: "32 word list \<Rightarrow> bool" where
  "bigint_IsNull b = list_all (\<lambda>x. x = 0) b"

text \<open>Modelled from the spec: \<^verbatim>\<open>not\<close> of package bigint, the bitwise complement of every
  limb.\<close>

definition bigint_Not :: "32 word list \<Rightarrow> 32 word list" where
  "bigint_Not b = map (\<lambda>x. NOT x) b"

text \<open>
  Modelled from the spec: \<^verbatim>\<open>add_small(base, u32) \<rightarrow> new_limb_count\<close> of package bigint.
  The small number is added to the lowest limb and the carry runs upwards while it is
  set; the count is the number of limbs visited. A carry out of the last limb is an
  overflow, which the spec treats as an abort.
\<close>

fun carry_up :: "32 word list \<Rightarrow> bool \<Rightarrow> (32 word list \<times> nat) option" where
  "carry_up b False = Some (b, 0)"
| "carry_up [] True = None"
| "carry_up (x # xs) True =
     map_option (\<lambda>(ys, k). ((x + 1) # ys, Suc k)) (carry_up xs (x + 1 = 0))"

definition bigint_AddSmall :: "32 word list \<Rightarrow> 32 word \<Rightarrow> (32 word list \<times> nat) option" where
  "bigint_AddSmall b a =
     (case b of
        [] \<Rightarrow> None
      | x # xs \<Rightarrow>
          (let v = (ucast x :: 64 word) + ucast a
           in map_option (\<lambda>(ys, k). (ucast v # ys, Suc k)) (carry_up xs (drop_bit 32 v \<noteq> 0))))"

text \<open>
  Modelled from the spec: \<^verbatim>\<open>add\<close> of package bigint, limb by limb with carry; operands
  of unequal length and an overflow out of the last limb abort.
\<close>

fun add_limbs :: "32 word list \<Rightarrow> 32 word list \<Rightarrow> bool \<Rightarrow> 32 word list \<times> bool" where
  "add_limbs (x # xs) (y # ys) c =
     (let v = (ucast x :: 64 word) + ucast y + of_bool c;
          r = add_limbs xs ys (drop_bit 32 v \<noteq> 0)
      in (ucast v # fst r, snd r))"
| "add_limbs xs ys c = ([], c)"

definition bigint_MustAdd :: "32 word list \<Rightarrow> 32 word list \<Rightarrow> 32 word list option" where
  "bigint_MustAdd b rh =
     (if length b \<noteq> length rh then None
      else let r = add_limbs b rh False in if snd r then None else Some (fst r))"

text \<open>
  Modelled from the spec: \<^verbatim>\<open>sub\<close> of package bigint, limb by limb, as the addition of
  the complement with an initial carry; operands of unequal length and an underflow
  abort.
\<close>

definition bigint_MustSub :: "32 word list \<Rightarrow> 32 word list \<Rightarrow> 32 word list option" where
  "bigint_MustSub b rh =
     (if length b \<noteq> length rh then None
      else let r = add_limbs b (map (\<lambda>x. NOT x) rh) True
           in if \<not> snd r then None else Some (fst r))"

text \<open>
  Modelled from the spec: \<^verbatim>\<open>cmp\<close> of package bigint, \<open>-1\<close>, \<open>0\<close> or \<open>1\<close> as the first
  number is below, equal to or above the second; the most significant limb that differs
  decides.
\<close>

fun cmp_limbs :: "32 word list \<Rightarrow> 32 word list \<Rightarrow> int" where
  "cmp_limbs (x # xs) (y # ys) =
     (let r = cmp_limbs xs ys
      in if r \<noteq> 0 then r else if x < y then - 1 else if y < x then 1 else 0)"
| "cmp_limbs xs ys = 0"

definition bigint_MustCmp :: "32 word list \<Rightarrow> 32 word list \<Rightarrow> int option" where
  "bigint_MustCmp lh rh = (if length lh \<noteq> length rh then None else Some (cmp_limbs lh rh))"

text \<open>Modelled from the spec: \<^verbatim>\<open>reverse_bytes\<close> of package bigint, the bytes in reverse
  order.\<close>

definition bigint_Reverse :: "8 word list \<Rightarrow> 8 word list" where
  "bigint_Reverse b = rev b"

section \<open>Package trinary: the codec between hashes and bytes\<close>

text \<open>
  \<^verbatim>\<open>(*(*[]uint32)(unsafe.Pointer(&b)))[0:IntLength]\<close> reads the 48 bytes as twelve
  \<^verbatim>\<open>uint32\<close> in place; on the little-endian machines the package runs on, limb \<open>k\<close> is
  made of bytes \<open>4k .. 4k+3\<close>, lowest byte first.
\<close>

definition limb_bytes :: "32 word \<Rightarrow> 8 word list" where
  "limb_bytes x = [ucast x, ucast (drop_bit 8 x), ucast (drop_bit 16 x), ucast (drop_bit 24 x)]"

definition bytes_of_limbs :: "32 word list \<Rightarrow> 8 word list" where
  "bytes_of_limbs base = concat (map limb_bytes base)"

fun limbs_of_bytes :: "8 word list \<Rightarrow> 32 word list" where
  "limbs_of_bytes (b0 # b1 # b2 # b3 # bs) =
     (ucast b0 OR push_bit 8 (ucast b1) OR push_bit 16 (ucast b2) OR push_bit 24 (ucast b3))
       # limbs_of_bytes bs"
| "limbs_of_bytes bs = []"

definition halfThree :: "32 word list" where
  "halfThree =
    [0xa5ce8964, 0x9f007669, 0x1484504f, 0x3ade00d9, 0x0c24486e, 0x50979d57,
     0x79a4c702, 0x48bbae36, 0xa9f6808b, 0xaa06a805, 0xa87fabdf, 0x5e69ebef]"

definition CanBeHash :: "Trits \<Rightarrow> bool" where
  "CanBeHash trits = (length trits = HashTrinarySize)"

text \<open>
  The inner loop \<^verbatim>\<open>for j := 0; j < sz; j++\<close> of \<^verbatim>\<open>TritsToBytes\<close>, over the limbs from
  position \<open>j\<close> on: the first argument counts the limbs that remain to be multiplied.
\<close>

fun mul_radix :: "nat \<Rightarrow> 32 word list \<Rightarrow> 32 word \<Rightarrow> (32 word list \<times> 32 word) option" where
  "mul_radix 0 base carry = Some (base, carry)"
| "mul_radix (Suc n) [] carry = None"
| "mul_radix (Suc n) (x # xs) carry =
     (let v = (ucast x :: 64 word) * 3 + ucast carry
      in map_option (\<lambda>(ys, c). (ucast v # ys, c)) (mul_radix n xs (ucast (drop_bit 32 v))))"

text \<open>The body of the loop over the trits, on the state \<^verbatim>\<open>(base, size)\<close> (\<open>sz\<close> here).\<close>

definition TritsToBytes_step :: "8 word \<Rightarrow> 32 word list \<times> nat \<Rightarrow> (32 word list \<times> nat) option" where
  "TritsToBytes_step e st =
     (case st of (base, sz) \<Rightarrow>
        (case mul_radix sz base 0 of
           None \<Rightarrow> None
         | Some (base1, carry) \<Rightarrow>
             (case (if 0 < carry
                    then (if sz < length base1 then Some (base1[sz := carry], sz + 1) else None)
                    else Some (base1, sz)) of
                None \<Rightarrow> None
              | Some (base2, sz2) \<Rightarrow>
                  (let trit = (scast (e + 1) :: 32 word)
                   in case bigint_AddSmall base2 trit of
                        None \<Rightarrow> None
                      | Some (base3, ns) \<Rightarrow> Some (base3, if sz2 < ns then ns else sz2)))))"

fun fold_option :: "('a \<Rightarrow> 's \<Rightarrow> 's option) \<Rightarrow> 'a list \<Rightarrow> 's \<Rightarrow> 's option" where
  "fold_option f [] s = Some s"
| "fold_option f (x # xs) s = (case f x s of None \<Rightarrow> None | Some s' \<Rightarrow> fold_option f xs s')"

text \<open>The limbs that \<^verbatim>\<open>TritsToBytes\<close> leaves in \<^verbatim>\<open>base\<close> for a slice of 243 trits.\<close>

definition TritsToBytes_limbs :: "Trits \<Rightarrow> 32 word list option" where
  "TritsToBytes_limbs trits =
     (let allNeg = list_all (\<lambda>e. e = - 1) (take (HashTrinarySize - 1) trits);
          base = replicate IntLength (0 :: 32 word)
      in if allNeg
         then map_option fst (bigint_AddSmall (bigint_Not halfThree) 1)
         else (case fold_option TritsToBytes_step
                      (ReverseTrits (take (HashTrinarySize - 1) trits)) (base, 1) of
                 None \<Rightarrow> None
               | Some (base1, sz) \<Rightarrow>
                   if \<not> bigint_IsNull base1
                   then (case bigint_MustCmp halfThree base1 of
                           None \<Rightarrow> None
                         | Some c \<Rightarrow>
                             if c \<le> 0 then bigint_MustSub base1 halfThree
                             else (case bigint_MustSub halfThree base1 of
                                     None \<Rightarrow> None
                                   | Some tmp \<Rightarrow>
                                       map_option fst (bigint_AddSmall (bigint_Not tmp) 1)))
                   else Some base1))"

definition TritsToBytes :: "Trits \<Rightarrow> error + 8 word list" where
  "TritsToBytes trits =
     (if \<not> CanBeHash trits then Inl ErrInvalidTritsLength
      else case TritsToBytes_limbs trits of
             None \<Rightarrow> Inl Panic
           | Some base \<Rightarrow> Inr (bigint_Reverse (bytes_of_limbs base)))"

text \<open>
  The inner loop \<^verbatim>\<open>for j := IntLength - 1; j >= 0; j--\<close> of \<^verbatim>\<open>BytesToTrits\<close>: one division
  of the limbs by the radix, from the most significant limb down, with the remainder.
\<close>

fun div_radix :: "32 word list \<Rightarrow> 32 word list \<times> 64 word" where
  "div_radix [] = ([], 0)"
| "div_radix (x # xs) =
     (let r = div_radix xs;
          lhs = push_bit 32 (snd r) OR (ucast x :: 64 word);
          q = (ucast (lhs div 3) :: 32 word);
          rm = (ucast (lhs mod 3) :: 32 word)
      in (q # fst r, ucast rm))"

fun BytesToTrits_loop :: "nat \<Rightarrow> 32 word list \<Rightarrow> Trits" where
  "BytesToTrits_loop 0 base = []"
| "BytesToTrits_loop (Suc n) base =
     (let r = div_radix base in (ucast (snd r) - 1) # BytesToTrits_loop n (fst r))"

text \<open>The \<^verbatim>\<open>switch\<close> of \<^verbatim>\<open>BytesToTrits\<close>: the flag \<^verbatim>\<open>flipTrits\<close> and the new limbs.\<close>

definition BytesToTrits_offset :: "32 word list \<Rightarrow> (bool \<times> 32 word list) option" where
  "BytesToTrits_offset base =
     (if drop_bit 31 (base ! (IntLength - 1)) = 0
      then map_option (Pair False) (bigint_MustAdd base halfThree)
      else (let base1 = bigint_Not base
            in case bigint_MustCmp base1 halfThree of
                 None \<Rightarrow> None
               | Some c \<Rightarrow>
                   if c = 1 then map_option (Pair True) (bigint_MustSub base1 halfThree)
                   else (case bigint_AddSmall base1 1 of
                           None \<Rightarrow> None
                         | Some (base2, n) \<Rightarrow>
                             map_option (Pair False) (bigint_MustSub halfThree base2))))"

definition BytesToTrits :: "8 word list \<Rightarrow> error + Trits" where
  "BytesToTrits b =
     (if length b \<noteq> HashBytesSize then Inl ErrInvalidBytesLength
      else let rb = bigint_Reverse b;
               base = limbs_of_bytes rb
           in if bigint_IsNull base then Inr (replicate HashTrinarySize 0)
              else (case BytesToTrits_offset base of
                      None \<Rightarrow> Inl Panic
                    | Some (flipTrits, base1) \<Rightarrow>
                        (let t = BytesToTrits_loop (HashTrinarySize - 1) base1 @ [0]
                         in Inr (if flipTrits then map uminus t else t))))"

text \<open>
  The number that the loop of \<^verbatim>\<open>TritsToBytes\<close> accumulates: every trit \<open>e\<close> enters as the
  digit \<^verbatim>\<open>uint32(e + 1)\<close>, least significant first.
\<close>

fun digits_value :: "Trits \<Rightarrow> nat" where
  "digits_value [] = 0"
| "digits_value (t # ts) = unat (t + 1) + 3 * digits_value ts"

text \<open>The number that a sequence of bytes stands for, least significant byte first, and
  most significant byte first (big-endian).\<close>

fun bytes_value_le :: "8 word list \<Rightarrow> nat" where
  "bytes_value_le [] = 0"
| "bytes_value_le (b # bs) = unat b + 256 * bytes_value_le bs"

definition bytes_value_be :: "8 word list \<Rightarrow> nat" where
  "bytes_value_be bs = bytes_value_le (rev bs)"

text \<open>What \<^verbatim>\<open>TrytesToTrits\<close> needs of a character: it is found in the alphabet, and its
  entry of the table holds three valid trits.\<close>

definition alphabet_entry :: "char \<Rightarrow> bool" where
  "alphabet_entry c \<longleftrightarrow>
     0 \<le> strings_Index TryteAlphabet c
     \<and> strings_Index TryteAlphabet c < int (length TryteToTritsLUT)
     \<and> length (TryteToTritsLUT ! nat (strings_Index TryteAlphabet c)) = 3
     \<and> list_all ValidTrit (TryteToTritsLUT ! nat (strings_Index TryteAlphabet c))"

section \<open>Package pow: the bit-sliced search\<close>

definition hBits :: "64 word" where "hBits = 0xFFFFFFFFFFFFFFFF"
definition lBits :: "64 word" where "lBits = 0x0000000000000000"

definition low0 :: "64 word" where "low0 = 0xDB6DB6DB6DB6DB6D"
definition high0 :: "64 word" where "high0 = 0xB6DB6DB6DB6DB6DB"
definition low1 :: "64 word" where "low1 = 0xF1F8FC7E3F1F8FC7"
definition high1 :: "64 word" where "high1 = 0x8FC7E3F1F8FC7E3F"
definition low2 :: "64 word" where "low2 = 0x7FFFE00FFFFC01FF"
definition high2 :: "64 word" where "high2 = 0xFFC01FFFF803FFFF"
definition low3 :: "64 word" where "low3 = 0xFFC0000007FFFFFF"
definition high3 :: "64 word" where "high3 = 0x003FFFFFFFFFFFFF"

definition nonceOffset :: nat where "nonceOffset = HashTrinarySize - NonceTrinarySize"
definition nonceInitStart :: nat where "nonceInitStart = nonceOffset + 4"
definition nonceIncrementStart :: nat where
  "nonceIncrementStart = nonceInitStart + NonceTrinarySize div 3"

text \<open>
  The two arrays \<^verbatim>\<open>*[curl.StateSize]uint64\<close> of a worker are lists of lanes; every
  function below keeps their length.
\<close>

type_synonym lanes = "64 word list"

text \<open>One lane of \<^verbatim>\<open>para\<close>; a trit outside the \<^verbatim>\<open>switch\<close> leaves the zero value of the
  arrays.\<close>

definition para_lane :: "8 word \<Rightarrow> 64 word \<times> 64 word" where
  "para_lane t =
     (if t = 0 then (hBits, hBits)
      else if t = 1 then (lBits, hBits)
      else if t = - 1 then (hBits, lBits)
      else (0, 0))"

text \<open>\<^verbatim>\<open>para\<close> reads \<^verbatim>\<open>in[0 .. StateSize-1]\<close>; a shorter slice panics (\<open>None\<close>).\<close>

definition para :: "Trits \<Rightarrow> (lanes \<times> lanes) option" where
  "para inp =
     (if length inp < StateSize then None
      else Some (map (\<lambda>t. fst (para_lane t)) (take StateSize inp),
                 map (\<lambda>t. snd (para_lane t)) (take StateSize inp)))"

text \<open>The eight assignments of \<^verbatim>\<open>goProofOfWork\<close> that seed the first four nonce lanes.\<close>

definition seed_nonce :: "lanes \<times> lanes \<Rightarrow> lanes \<times> lanes" where
  "seed_nonce st =
     (case st of (lmid, hmid) \<Rightarrow>
        (lmid[nonceOffset := low0, nonceOffset + 1 := low1,
              nonceOffset + 2 := low2, nonceOffset + 3 := low3],
         hmid[nonceOffset := high0, nonceOffset + 1 := high1,
              nonceOffset + 2 := high2, nonceOffset + 3 := high3]))"

text \<open>
  The loop that \<^verbatim>\<open>incr\<close> and \<^verbatim>\<open>incrN\<close> share, from lane \<open>i\<close> up to the bound \<open>hi\<close>; it
  returns the final \<open>i\<close> and \<open>carry\<close> with the arrays.
\<close>

function counter_loop ::
  "nat \<Rightarrow> nat \<Rightarrow> 64 word \<Rightarrow> lanes \<Rightarrow> lanes \<Rightarrow> nat \<times> 64 word \<times> lanes \<times> lanes" where
  "counter_loop i hi carry lmid hmid =
     (if i < hi \<and> carry \<noteq> 0
      then (let low = lmid ! i;
                high = hmid ! i
            in counter_loop (i + 1) hi (high AND NOT low)
                 (lmid[i := high XOR low]) (hmid[i := low]))
      else (i, carry, lmid, hmid))"
  by pat_completeness auto
termination
  by (relation "measure (\<lambda>(i, hi, carry, lmid, hmid). hi - i)") auto

declare counter_loop.simps [simp del]

fun incrN :: "nat \<Rightarrow> lanes \<Rightarrow> lanes \<Rightarrow> lanes \<times> lanes" where
  "incrN 0 lmid hmid = (lmid, hmid)"
| "incrN (Suc n) lmid hmid =
     (case counter_loop nonceInitStart nonceIncrementStart 1 lmid hmid of
        (i, carry, lmid', hmid') \<Rightarrow> incrN n lmid' hmid')"

definition incr :: "lanes \<Rightarrow> lanes \<Rightarrow> bool \<times> lanes \<times> lanes" where
  "incr lmid hmid =
     (case counter_loop nonceInitStart HashTrinarySize 1 lmid hmid of
        (i, carry, lmid', hmid') \<Rightarrow> (i = HashTrinarySize, lmid', hmid'))"

text \<open>
  The arrays after \<open>m\<close> calls of \<^verbatim>\<open>incr\<close> by \<^verbatim>\<open>loop\<close>, which between two calls only
  transforms copies of them.
\<close>

fun incr_times :: "nat \<Rightarrow> lanes \<Rightarrow> lanes \<Rightarrow> lanes \<times> lanes" where
  "incr_times 0 lmid hmid = (lmid, hmid)"
| "incr_times (Suc m) lmid hmid =
     (case incr lmid hmid of (full, lmid', hmid') \<Rightarrow> incr_times m lmid' hmid')"

text \<open>
  One round of \<^verbatim>\<open>transform64\<close>: every lane of the target arrays is written from the
  source arrays. The table \<^verbatim>\<open>curl.Indices\<close> is not among the files and is the parameter
  \<open>Indices\<close>; an index outside the table or outside the arrays panics (\<open>None\<close>).
\<close>

definition sbox64 :: "nat list \<Rightarrow> lanes \<Rightarrow> lanes \<Rightarrow> nat \<Rightarrow> 64 word \<times> 64 word" where
  "sbox64 Indices lfrom hfrom j =
     (let t1 = Indices ! j;
          t2 = Indices ! (j + 1);
          alpha = lfrom ! t1;
          beta = hfrom ! t1;
          gamma = hfrom ! t2;
          delta = (alpha OR (NOT gamma)) AND (lfrom ! t2 XOR beta)
      in (NOT delta, (alpha XOR gamma) OR delta))"

definition round64 :: "nat list \<Rightarrow> lanes \<times> lanes \<Rightarrow> (lanes \<times> lanes) option" where
  "round64 Indices st =
     (case st of (lfrom, hfrom) \<Rightarrow>
        if StateSize < length Indices
           \<and> list_all (\<lambda>t. t < length lfrom \<and> t < length hfrom) (take (StateSize + 1) Indices)
        then Some (map (\<lambda>j. fst (sbox64 Indices lfrom hfrom j)) [0..<StateSize],
                   map (\<lambda>j. snd (sbox64 Indices lfrom hfrom j)) [0..<StateSize])
        else None)"

fun rounds64 :: "nat \<Rightarrow> nat list \<Rightarrow> lanes \<times> lanes \<Rightarrow> (lanes \<times> lanes) option" where
  "rounds64 0 Indices st = Some st"
| "rounds64 (Suc r) Indices st =
     (case round64 Indices st of None \<Rightarrow> None | Some st' \<Rightarrow> rounds64 r Indices st')"

text \<open>
  \<^verbatim>\<open>transform64\<close>: \<^verbatim>\<open>NumberOfRounds - 1\<close> rounds that swap source and target, and a last
  round into the temporaries, which are copied back.
\<close>

definition transform64 :: "nat list \<Rightarrow> lanes \<Rightarrow> lanes \<Rightarrow> (lanes \<times> lanes) option" where
  "transform64 Indices lmid hmid =
     (case rounds64 (NumberOfRounds - 1) Indices (lmid, hmid) of
        None \<Rightarrow> None
      | Some st \<Rightarrow> round64 Indices st)"

text \<open>The trit that \<^verbatim>\<open>seri\<close> reads at bit position \<open>n\<close> of one lane.\<close>

definition seri_trit :: "64 word \<Rightarrow> 64 word \<Rightarrow> nat \<Rightarrow> 8 word" where
  "seri_trit l h n =
     (let ll = drop_bit n l AND 1;
          hh = drop_bit n h AND 1
      in if hh = 0 \<and> ll = 1 then - 1
         else if hh = 1 \<and> ll = 1 then 0
         else if hh = 1 \<and> ll = 0 then 1
         else 0)"

text \<open>The trits at bit position \<open>n\<close> of the lanes \<open>lo .. hi-1\<close>.\<close>

definition window_trits :: "nat \<Rightarrow> nat \<Rightarrow> lanes \<Rightarrow> lanes \<Rightarrow> nat \<Rightarrow> Trits" where
  "window_trits lo hi l h n = map (\<lambda>i. seri_trit (l ! i) (h ! i) n) [lo..<hi]"

definition seri :: "lanes \<Rightarrow> lanes \<Rightarrow> nat \<Rightarrow> Trits" where
  "seri l h n = window_trits nonceOffset HashTrinarySize l h n"

text \<open>No bit position of a lane holds the pair \<open>(0, 0)\<close>.\<close>

definition lanes_ok :: "lanes \<Rightarrow> lanes \<Rightarrow> bool" where
  "lanes_ok l h =
     (length l = StateSize \<and> length h = StateSize \<and> list_all2 (\<lambda>a b. a OR b = - 1) l h)"

text \<open>A lane whose 64 bit positions all hold the same trit.\<close>

definition uniform_lane :: "64 word \<Rightarrow> 64 word \<Rightarrow> bool" where
  "uniform_lane l h = ((l = 0 \<or> l = - 1) \<and> (h = 0 \<or> h = - 1))"

definition uniform_window :: "nat \<Rightarrow> nat \<Rightarrow> lanes \<Rightarrow> lanes \<Rightarrow> bool" where
  "uniform_window lo hi l h = list_all (\<lambda>i. uniform_lane (l ! i) (h ! i)) [lo..<hi]"

text \<open>The lanes \<open>i .. hi-1\<close> exist, are uniform and hold no pair \<open>(0, 0)\<close>.\<close>

definition window_ok :: "nat \<Rightarrow> nat \<Rightarrow> lanes \<Rightarrow> lanes \<Rightarrow> bool" where
  "window_ok i hi l h \<longleftrightarrow>
     hi \<le> length l \<and> length h = length l
     \<and> (\<forall>j. i \<le> j \<and> j < hi \<longrightarrow> uniform_lane (l ! j) (h ! j) \<and> l ! j OR h ! j = - 1)"

text \<open>
  The balanced-ternary successor of a little-endian trit sequence of fixed width, in the
  words of the specification: \<open>-1\<close> becomes \<open>0\<close>, \<open>0\<close> becomes \<open>+1\<close>, and \<open>+1\<close> becomes \<open>-1\<close>
  with a carry into the next trit.
\<close>

fun spec_ternary_succ :: "Trits \<Rightarrow> Trits" where
  "spec_ternary_succ [] = []"
| "spec_ternary_succ (t # ts) =
     (if t = - 1 then 0 # ts
      else if t = 0 then 1 # ts
      else (- 1) # spec_ternary_succ ts)"

text \<open>What \<^verbatim>\<open>transform64\<close> needs of the table: the entries \<open>0 .. StateSize\<close> exist and
  index the state arrays.\<close>

definition Indices_ok :: "nat list \<Rightarrow> bool" where
  "Indices_ok Indices =
     (StateSize < length Indices \<and> list_all (\<lambda>t. t < StateSize) (take (StateSize + 1) Indices))"

subsection \<open>The entry point\<close>

text \<open>
  What a call of \<^verbatim>\<open>goProofOfWork\<close> does: it returns a nonce with an error value
  (\<open>None\<close> for \<^verbatim>\<open>nil\<close>), panics, or waits for ever on the nonce channel.
\<close>

datatype pow_outcome = Returns Trytes "error option" | Panics | Blocks

text \<open>
  \<^verbatim>\<open>goProofOfWork\<close>. Everything after the first \<^verbatim>\<open>if\<close> (absorbing into Curl, starting
  the goroutines, receiving from the channel) is the parameter \<open>search\<close>, which yields a
  nonce, a panic or no answer; the only \<^verbatim>\<open>return\<close> after the guard is
  \<^verbatim>\<open>return result, nil\<close>.
\<close>

definition goProofOfWork ::
  "(Trytes \<Rightarrow> int \<Rightarrow> int list \<Rightarrow> Trytes option option) \<Rightarrow> Trytes \<Rightarrow> int \<Rightarrow> int list \<Rightarrow> pow_outcome" where
  "goProofOfWork search trytes mwm parallelism =
     (if trytes = [] then Returns [] (Some ErrInvalidTrytesForProofOfWork)
      else (case search trytes mwm parallelism of
              None \<Rightarrow> Blocks
            | Some None \<Rightarrow> Panics
            | Some (Some result) \<Rightarrow> Returns result None))"

section \<open>Closure of the adder over the trit domain\<close>

lemma ValidTrit_iff: "ValidTrit t \<longleftrightarrow> t = - 1 \<or> t = 0 \<or> t = 1"
  by (simp add: ValidTrit_def)

lemma sum_trit_valid: "ValidTrit a \<Longrightarrow> ValidTrit b \<Longrightarrow> ValidTrit (sum_trit a b)"
  by (auto simp: ValidTrit_iff sum_trit_def)

lemma cons_valid: "ValidTrit a \<Longrightarrow> ValidTrit b \<Longrightarrow> ValidTrit (cons a b)"
  by (auto simp: ValidTrit_iff cons_def)

lemma any_valid: "ValidTrit (any a b)"
  by (simp add: ValidTrit_iff any_def Let_def)

lemma fullAdd_valid:
  "ValidTrit a \<Longrightarrow> ValidTrit b \<Longrightarrow> ValidTrit c \<Longrightarrow>
     ValidTrit (fst (fullAdd a b c)) \<and> ValidTrit (snd (fullAdd a b c))"
  by (simp add: fullAdd_def Let_def sum_trit_valid cons_valid any_valid)

lemma ValidTrit_0: "ValidTrit 0"
  by (simp add: ValidTrit_iff)

lemma AddTrits_loop_valid:
  "list_all ValidTrit a \<Longrightarrow> list_all ValidTrit b \<Longrightarrow> ValidTrit carry \<Longrightarrow>
     list_all ValidTrit (AddTrits_loop n i a b carry)"
proof (induction n arbitrary: i carry)
  case 0
  show ?case by simp
next
  case (Suc n)
  define aI where "aI = (if i < length a then a ! i else 0)"
  define bI where "bI = (if i < length b then b ! i else 0)"
  have va: "ValidTrit aI"
    using Suc.prems(1) by (simp add: aI_def ValidTrit_0 list_all_length)
  have vb: "ValidTrit bI"
    using Suc.prems(2) by (simp add: bI_def ValidTrit_0 list_all_length)
  from fullAdd_valid [OF va vb Suc.prems(3)]
  have f: "ValidTrit (fst (fullAdd aI bI carry))" "ValidTrit (snd (fullAdd aI bI carry))"
    by simp_all
  from Suc.IH [OF Suc.prems(1) Suc.prems(2) f(2)] f(1)
  show ?case
    by (simp add: Let_def aI_def bI_def)
qed

text \<open>
  C10. Whenever all trits of both operands are in \<open>{-1, 0, 1}\<close>, every trit of
  \<open>AddTrits a b\<close> is in \<open>{-1, 0, 1}\<close>: \<open>sum\<close>, \<open>cons\<close>, \<open>any\<close> and \<open>fullAdd\<close> are closed
  over the trit domain.
\<close>

theorem AddTrits_closed:
  assumes "list_all ValidTrit a" and "list_all ValidTrit b"
  shows "list_all ValidTrit (AddTrits a b)"
  using AddTrits_loop_valid [OF assms ValidTrit_0]
  by (simp add: AddTrits_def Let_def ValidTrit_0)

theorem AddTrits_closed_witness:
  "list_all ValidTrit [1, 1, - 1] \<and> list_all ValidTrit [1, 0] \<and>
   list_all ValidTrit (AddTrits [1, 1, - 1] [1, 0])"
proof -
  have a: "list_all ValidTrit [1, 1, - 1]" by (simp add: ValidTrit_iff)
  have b: "list_all ValidTrit [1, 0]" by (simp add: ValidTrit_iff)
  show ?thesis using a b AddTrits_closed [OF a b] by simp
qed

section \<open>The guard of the proof-of-work entry point\<close>

text \<open>
  C9. \<open>goProofOfWork\<close> returns \<open>ErrInvalidTrytesForProofOfWork\<close> exactly when the trytes
  are the empty string; for the empty string it returns the empty nonce with that error
  whatever the search would do, so the search is not run.
\<close>

theorem goProofOfWork_error_iff:
  "((\<exists>nonce. goProofOfWork search trytes mwm parallelism
        = Returns nonce (Some ErrInvalidTrytesForProofOfWork)) \<longleftrightarrow> trytes = [])
   \<and> goProofOfWork search [] mwm parallelism = Returns [] (Some ErrInvalidTrytesForProofOfWork)"
  by (auto simp: goProofOfWork_def split: option.splits)

section \<open>Trits and trytes\<close>

lemma TritsToTrytes_empty: "TritsToTrytes [] = Inl ErrInvalidTritsLength"
  by (simp add: TritsToTrytes_def CanTritsToTrytes_def)

lemma tryte_of_triple:
  assumes "ValidTrit a" "ValidTrit b" "ValidTrit c"
  defines "j \<equiv> tryte_index a b c"
  shows "0 \<le>s j \<and> sint j < int (length TryteAlphabet)
       \<and> tryte_char (TryteAlphabet ! nat (sint j))
       \<and> 0 \<le> strings_Index TryteAlphabet (TryteAlphabet ! nat (sint j))
       \<and> strings_Index TryteAlphabet (TryteAlphabet ! nat (sint j)) < int (length TryteToTritsLUT)
       \<and> TryteToTritsLUT ! nat (strings_Index TryteAlphabet (TryteAlphabet ! nat (sint j))) = [a, b, c]"
  using assms(1-3) unfolding ValidTrit_iff j_def tryte_index_def
  by (elim disjE; simp add: TryteAlphabet_def TryteToTritsLUT_def tryte_char_def word_sless_alt word_sle_eq)

lemma drop_three:
  assumes "i * 3 + 3 \<le> length (t :: 'a list)"
  shows "drop (i * 3) t = t ! (i * 3) # t ! (i * 3 + 1) # t ! (i * 3 + 2) # drop (Suc i * 3) t"
proof -
  have a: "drop (i * 3) t = t ! (i * 3) # drop (Suc (i * 3)) t"
    using assms by (simp add: Cons_nth_drop_Suc)
  have b: "drop (Suc (i * 3)) t = t ! (i * 3 + 1) # drop (Suc (Suc (i * 3))) t"
    using assms by (simp add: Cons_nth_drop_Suc)
  have c: "drop (Suc (Suc (i * 3))) t = t ! (i * 3 + 2) # drop (Suc (Suc (Suc (i * 3)))) t"
    using assms Cons_nth_drop_Suc [of "i * 3 + 2" t] by simp
  have d: "Suc (Suc (Suc (i * 3))) = Suc i * 3" by simp
  show ?thesis unfolding a b c d ..
qed

lemma TritsToTrytes_loop_roundtrip:
  assumes "list_all ValidTrit trits" and "(i + n) * 3 \<le> length trits"
  shows "\<exists>s. TritsToTrytes_loop n i trits = Some s \<and> length s = n \<and> list_all tryte_char s
           \<and> TrytesToTrits_loop s = Some (take (n * 3) (drop (i * 3) trits))"
  using assms(2)
proof (induction n arbitrary: i)
  case 0
  show ?case by simp
next
  case (Suc n)
  let ?a = "trits ! (i * 3)" and ?b = "trits ! (i * 3 + 1)" and ?c = "trits ! (i * 3 + 2)"
  have len: "i * 3 + 3 \<le> length trits" using Suc.prems by simp
  have v: "ValidTrit ?a" "ValidTrit ?b" "ValidTrit ?c"
    using assms(1) len by (simp_all add: list_all_length)
  note t = tryte_of_triple [OF v]
  from Suc.IH [of "Suc i"] Suc.prems
  obtain s where s: "TritsToTrytes_loop n (Suc i) trits = Some s" "length s = n"
      "list_all tryte_char s"
      "TrytesToTrits_loop s = Some (take (n * 3) (drop (Suc i * 3) trits))"
    by auto
  have d: "take (Suc n * 3) (drop (i * 3) trits)
             = [?a, ?b, ?c] @ take (n * 3) (drop (Suc i * 3) trits)"
  proof -
    have e: "Suc n * 3 = Suc (Suc (Suc (n * 3)))" by simp
    show ?thesis
      unfolding drop_three [OF len] e by simp
  qed
  define ch where "ch = TryteAlphabet ! nat (sint (tryte_index ?a ?b ?c))"
  have step: "TritsToTrytes_loop (Suc n) i trits = Some (ch # s)"
    using t s(1) by (simp add: Let_def ch_def)
  have rt: "TrytesToTrits_loop (ch # s)
                = Some ([?a, ?b, ?c] @ take (n * 3) (drop (Suc i * 3) trits))"
    using t s(4) by (simp add: Let_def ch_def)
  have props: "length (ch # s) = Suc n" "list_all tryte_char (ch # s)"
    using t s(2,3) by (simp_all add: ch_def)
  show ?case
    by (intro exI [of _ "ch # s"] conjI) (fact step, fact props(1), fact props(2), simp only: rt d)
qed

text \<open>
  C5, as the code has it. For every sequence of valid trits whose length is a positive
  multiple of 3, \<open>TritsToTrytes\<close> returns trytes without an error and \<open>TrytesToTrits\<close>
  maps them back to the same trits without an error.
\<close>

theorem TrytesToTrits_TritsToTrytes:
  assumes "list_all ValidTrit t" and "length t mod 3 = 0" and "0 < length t"
  shows "\<exists>s. TritsToTrytes t = Inr s \<and> TrytesToTrits s = Inr t"
proof -
  have "(0 + length t div 3) * 3 \<le> length t" by simp
  from TritsToTrytes_loop_roundtrip [OF assms(1) this]
  obtain s where s: "TritsToTrytes_loop (length t div 3) 0 t = Some s"
      "length s = length t div 3" "list_all tryte_char s"
      "TrytesToTrits_loop s = Some (take (length t div 3 * 3) (drop (0 * 3) t))"
    by blast
  have full: "length t div 3 * 3 = length t"
    using assms(2) by (simp add: mod_eq_0_iff_dvd)
  have ne: "s \<noteq> []"
    using s(2) assms(2,3) full by auto
  have "TritsToTrytes t = Inr s"
    using assms(2,3) s(1) by (simp add: TritsToTrytes_def CanTritsToTrytes_def)
  moreover have "TrytesToTrits s = Inr t"
    using s(3,4) ne full by (simp add: TrytesToTrits_def ValidTrytes_def)
  ultimately show ?thesis by blast
qed

theorem TrytesToTrits_TritsToTrytes_witness:
  "list_all ValidTrit [1, 1, 1, 0, - 1, - 1] \<and> length [1, 1, 1, 0, - 1, - 1 :: 8 word] mod 3 = 0
   \<and> 0 < length [1, 1, 1, 0, - 1, - 1 :: 8 word]
   \<and> (\<exists>s. TritsToTrytes [1, 1, 1, 0, - 1, - 1] = Inr s \<and> TrytesToTrits s = Inr [1, 1, 1, 0, - 1, - 1])"
proof -
  have v: "list_all ValidTrit [1, 1, 1, 0, - 1, - 1]" by (simp add: ValidTrit_iff)
  have m: "length [1, 1, 1, 0, - 1, - 1 :: 8 word] mod 3 = 0" by simp
  have p: "0 < length [1, 1, 1, 0, - 1, - 1 :: 8 word]" by simp
  from TrytesToTrits_TritsToTrytes [OF v m p] v m p show ?thesis by blast
qed

text \<open>
  The empty sequence is a sequence of valid trits whose length is a multiple of 3, and
  \<open>TritsToTrytes\<close> returns an error for it.
\<close>

theorem TritsToTrytes_empty_counterexample:
  "list_all ValidTrit [] \<and> length ([] :: Trits) mod 3 = 0
   \<and> TritsToTrytes [] = Inl ErrInvalidTritsLength"
  by (simp add: TritsToTrytes_empty)

section \<open>The invariant of the bit-sliced state\<close>

lemma xor_or_absorb: "((h :: 64 word) XOR l) OR l = l OR h"
  by (rule bit_eqI) (auto simp: bit_simps)

lemma sbox_no_zero_pair:
  "NOT (d :: 64 word) OR ((a XOR g) OR d) = - 1"
  by (rule bit_eqI) (auto simp: bit_simps)

lemma para_lane_ok: "ValidTrit t \<Longrightarrow> fst (para_lane t) OR snd (para_lane t) = - 1"
  by (auto simp: ValidTrit_iff para_lane_def hBits_def lBits_def)

lemma para_ok:
  assumes "list_all ValidTrit inp" and "length inp = StateSize"
  shows "\<exists>l h. para inp = Some (l, h) \<and> lanes_ok l h"
  using assms
  by (simp add: para_def lanes_ok_def list_all2_conv_all_nth list_all_length para_lane_ok)

lemma seed_constants:
  "low0 OR high0 = - 1" "low1 OR high1 = - 1" "low2 OR high2 = - 1" "low3 OR high3 = - 1"
  by (simp_all add: low0_def high0_def low1_def high1_def low2_def high2_def low3_def high3_def)

lemma lanes_ok_update:
  assumes "lanes_ok l h" and "x OR y = - 1"
  shows "lanes_ok (l[i := x]) (h[i := y])"
  using assms by (simp add: lanes_ok_def list_all2_update_cong)

lemma seed_nonce_ok: "lanes_ok l h \<Longrightarrow> lanes_ok (fst (seed_nonce (l, h))) (snd (seed_nonce (l, h)))"
  by (simp add: seed_nonce_def lanes_ok_update seed_constants)

lemma lanes_ok_step:
  assumes "lanes_ok l h"
  shows "lanes_ok (l[i := h ! i XOR l ! i]) (h[i := l ! i])"
proof (cases "i < length l")
  case True
  then have "l ! i OR h ! i = - 1"
    using assms by (simp add: lanes_ok_def list_all2_conv_all_nth)
  then show ?thesis
    using assms by (simp add: lanes_ok_update xor_or_absorb)
next
  case False
  then have "l[i := h ! i XOR l ! i] = l" "h[i := l ! i] = h"
    using assms by (simp_all add: lanes_ok_def list_update_beyond)
  then show ?thesis using assms by simp
qed

lemma counter_loop_ok:
  "lanes_ok l h \<Longrightarrow> counter_loop i hi carry l h = (i', carry', l', h') \<Longrightarrow> lanes_ok l' h'"
proof (induction i hi carry l h rule: counter_loop.induct)
  case (1 i hi carry lmid hmid)
  show ?case
  proof (cases "i < hi \<and> carry \<noteq> 0")
    case True
    from "1.prems"(2) True
    have "counter_loop (i + 1) hi (hmid ! i AND NOT (lmid ! i))
            (lmid[i := hmid ! i XOR lmid ! i]) (hmid[i := lmid ! i]) = (i', carry', l', h')"
      by (subst (asm) counter_loop.simps) (simp add: Let_def)
    from "1.IH" [OF True refl refl lanes_ok_step [OF "1.prems"(1)] this]
    show ?thesis .
  next
    case False
    with "1.prems" show ?thesis
      by (subst (asm) counter_loop.simps) auto
  qed
qed

lemma incr_ok: "lanes_ok l h \<Longrightarrow> lanes_ok (fst (snd (incr l h))) (snd (snd (incr l h)))"
  by (auto simp: incr_def split: prod.splits dest: counter_loop_ok)

lemma incrN_ok: "lanes_ok l h \<Longrightarrow> lanes_ok (fst (incrN n l h)) (snd (incrN n l h))"
proof (induction n arbitrary: l h)
  case 0
  then show ?case by simp
next
  case (Suc n)
  obtain i c l' h' where s: "counter_loop nonceInitStart nonceIncrementStart 1 l h = (i, c, l', h')"
    by (metis prod_cases4)
  from counter_loop_ok [OF Suc.prems s] have "lanes_ok l' h'" .
  from Suc.IH [OF this] show ?case by (simp add: s)
qed

lemma sbox64_ok: "fst (sbox64 Indices l h j) OR snd (sbox64 Indices l h j) = - 1"
  unfolding sbox64_def Let_def fst_conv snd_conv by (rule sbox_no_zero_pair)

lemma round64_ok:
  assumes "Indices_ok Indices" and "length l = StateSize" and "length h = StateSize"
  shows "\<exists>l' h'. round64 Indices (l, h) = Some (l', h') \<and> lanes_ok l' h'"
  using assms
  by (simp add: round64_def Indices_ok_def lanes_ok_def list_all2_conv_all_nth sbox64_ok)

lemma rounds64_ok:
  assumes "Indices_ok Indices" and "length l = StateSize" and "length h = StateSize"
  shows "\<exists>l' h'. rounds64 r Indices (l, h) = Some (l', h') \<and> length l' = StateSize \<and> length h' = StateSize"
  using assms(2,3)
proof (induction r arbitrary: l h)
  case 0
  then show ?case by simp
next
  case (Suc r)
  from round64_ok [OF assms(1) Suc.prems]
  obtain l1 h1 where a: "round64 Indices (l, h) = Some (l1, h1)" "lanes_ok l1 h1" by blast
  then have "length l1 = StateSize" "length h1 = StateSize" by (simp_all add: lanes_ok_def)
  from Suc.IH [OF this] a(1) show ?case by simp
qed

lemma transform64_ok:
  assumes "Indices_ok Indices" and "length l = StateSize" and "length h = StateSize"
  shows "\<exists>l' h'. transform64 Indices l h = Some (l', h') \<and> lanes_ok l' h'"
proof -
  from rounds64_ok [OF assms, of "NumberOfRounds - 1"]
  obtain l1 h1 where a: "rounds64 (NumberOfRounds - 1) Indices (l, h) = Some (l1, h1)"
      "length l1 = StateSize" "length h1 = StateSize" by blast
  from round64_ok [OF assms(1) a(2,3)] a(1) show ?thesis
    by (simp add: transform64_def)
qed


text \<open>
  C6. No bit position of a lane holds the pair \<open>(0, 0)\<close>, that is \<open>L[i] OR H[i]\<close> is all
  ones in every lane: this holds after \<open>para\<close> on 729 valid trits, and it is kept by the
  seeding of the four nonce lanes, by \<open>incr\<close>, by \<open>incrN\<close> for any count and by
  \<open>transform64\<close>, which returns for every table whose entries index the state.
\<close>

theorem lanes_ok_preserved:
  "(list_all ValidTrit inp \<and> length inp = StateSize \<longrightarrow>
      (\<exists>l h. para inp = Some (l, h) \<and> lanes_ok l h))
   \<and> (lanes_ok l h \<longrightarrow>
        lanes_ok (fst (seed_nonce (l, h))) (snd (seed_nonce (l, h)))
        \<and> lanes_ok (fst (snd (incr l h))) (snd (snd (incr l h)))
        \<and> lanes_ok (fst (incrN n l h)) (snd (incrN n l h))
        \<and> (Indices_ok Indices \<longrightarrow>
             (\<exists>l' h'. transform64 Indices l h = Some (l', h') \<and> lanes_ok l' h')))"
proof (intro conjI impI)
  assume "list_all ValidTrit inp \<and> length inp = StateSize"
  then show "\<exists>l h. para inp = Some (l, h) \<and> lanes_ok l h"
    by (simp add: para_ok)
next
  assume "lanes_ok l h"
  then show "lanes_ok (fst (seed_nonce (l, h))) (snd (seed_nonce (l, h)))"
    by (rule seed_nonce_ok)
next
  assume "lanes_ok l h"
  then show "lanes_ok (fst (snd (incr l h))) (snd (snd (incr l h)))"
    by (rule incr_ok)
next
  assume "lanes_ok l h"
  then show "lanes_ok (fst (incrN n l h)) (snd (incrN n l h))"
    by (rule incrN_ok)
next
  assume ok: "lanes_ok l h" and idx: "Indices_ok Indices"
  from ok have "length l = StateSize" "length h = StateSize"
    by (simp_all add: lanes_ok_def)
  with idx show "\<exists>l' h'. transform64 Indices l h = Some (l', h') \<and> lanes_ok l' h'"
    by (rule transform64_ok)
qed

theorem lanes_ok_preserved_witness:
  "list_all ValidTrit (replicate 729 0) \<and> length (replicate 729 0 :: Trits) = StateSize
   \<and> lanes_ok (replicate 729 (- 1)) (replicate 729 (- 1))
   \<and> Indices_ok (map (\<lambda>i. i * 364 mod 729) [0..<730])
   \<and> (\<exists>l h. para (replicate 729 0) = Some (l, h) \<and> lanes_ok l h)
   \<and> lanes_ok (fst (seed_nonce (replicate 729 (- 1), replicate 729 (- 1))))
        (snd (seed_nonce (replicate 729 (- 1), replicate 729 (- 1))))
   \<and> lanes_ok (fst (snd (incr (replicate 729 (- 1)) (replicate 729 (- 1)))))
        (snd (snd (incr (replicate 729 (- 1)) (replicate 729 (- 1)))))
   \<and> lanes_ok (fst (incrN 2 (replicate 729 (- 1)) (replicate 729 (- 1))))
        (snd (incrN 2 (replicate 729 (- 1)) (replicate 729 (- 1))))
   \<and> (\<exists>l' h'. transform64 (map (\<lambda>i. i * 364 mod 729) [0..<730])
                 (replicate 729 (- 1)) (replicate 729 (- 1)) = Some (l', h')
              \<and> lanes_ok l' h')"
proof -
  have a: "list_all ValidTrit (replicate 729 0) \<and> length (replicate 729 0 :: Trits) = StateSize"
    by (simp add: list_all_length ValidTrit_iff StateSize_def)
  have b: "lanes_ok (replicate 729 (- 1)) (replicate 729 (- 1))"
    by (simp add: lanes_ok_def StateSize_def list_all2_conv_all_nth)
  have c: "Indices_ok (map (\<lambda>i. i * 364 mod 729) [0..<730])"
    by (auto simp: Indices_ok_def StateSize_def list_all_iff dest!: in_set_takeD)
  from lanes_ok_preserved [of "replicate 729 0" "replicate 729 (- 1)" "replicate 729 (- 1)" 2
      "map (\<lambda>i. i * 364 mod 729) [0..<730]"] a b c
  show ?thesis by blast
qed

section \<open>The ternary counter\<close>

lemma bit_pos_minus_1: "n < 64 \<Longrightarrow> drop_bit n (- 1 :: 64 word) AND 1 = 1"
  by (rule bit_eqI) (auto simp: bit_simps)

lemma seri_trit_uniform:
  assumes "n < 64"
  shows "seri_trit (- 1) 0 n = - 1" "seri_trit (- 1) (- 1) n = 0" "seri_trit 0 (- 1) n = 1"
  using bit_pos_minus_1 [OF assms] by (simp_all add: seri_trit_def)

lemma uniform_valid_cases:
  assumes "uniform_lane a b" and "a OR b = - 1"
  shows "(a = - 1 \<and> b = 0) \<or> (a = - 1 \<and> b = - 1) \<or> (a = 0 \<and> b = - 1)"
  using assms by (auto simp: uniform_lane_def)

lemma counter_loop_stop: "counter_loop i hi 0 l h = (i, 0, l, h)"
  by (subst counter_loop.simps) simp

lemma counter_loop_step:
  "i < hi \<Longrightarrow> carry \<noteq> 0 \<Longrightarrow>
     counter_loop i hi carry l h =
       counter_loop (Suc i) hi (h ! i AND NOT (l ! i)) (l[i := h ! i XOR l ! i]) (h[i := l ! i])"
  by (subst counter_loop.simps) (simp add: Let_def)

lemma counter_loop_end: "\<not> i < hi \<Longrightarrow> counter_loop i hi carry l h = (i, carry, l, h)"
  by (subst counter_loop.simps) simp

lemma counter_loop_keeps:
  "counter_loop i hi carry l h = (i', carry', l', h') \<Longrightarrow>
     length l' = length l \<and> length h' = length h \<and> (\<forall>j<i. l' ! j = l ! j \<and> h' ! j = h ! j)"
proof (induction i hi carry l h rule: counter_loop.induct)
  case (1 i hi carry lmid hmid)
  show ?case
  proof (cases "i < hi \<and> carry \<noteq> 0")
    case True
    with "1.prems" have
      "counter_loop (i + 1) hi (hmid ! i AND NOT (lmid ! i))
         (lmid[i := hmid ! i XOR lmid ! i]) (hmid[i := lmid ! i]) = (i', carry', l', h')"
      by (simp add: counter_loop_step)
    from "1.IH" [OF True refl refl this] show ?thesis by simp
  next
    case False
    with "1.prems" show ?thesis
      by (subst (asm) counter_loop.simps) auto
  qed
qed

lemma window_trits_Cons:
  "i < hi \<Longrightarrow> window_trits i hi l h n = seri_trit (l ! i) (h ! i) n # window_trits (Suc i) hi l h n"
  by (simp add: window_trits_def upt_conv_Cons)

lemma window_trits_empty: "\<not> i < hi \<Longrightarrow> window_trits i hi l h n = []"
  by (simp add: window_trits_def)

lemma window_trits_cong:
  "(\<And>j. i \<le> j \<Longrightarrow> j < hi \<Longrightarrow> l' ! j = l ! j \<and> h' ! j = h ! j) \<Longrightarrow>
     window_trits i hi l' h' n = window_trits i hi l h n"
  by (simp add: window_trits_def)

lemma window_trits_update:
  "window_trits (Suc i) hi (l[i := x]) (h[i := y]) n = window_trits (Suc i) hi l h n"
  by (rule window_trits_cong) simp

lemma window_ok_update:
  assumes "window_ok i hi l h"
  shows "window_ok (Suc i) hi (l[i := x]) (h[i := y])"
  using assms by (auto simp: window_ok_def)

lemma window_ok_extend:
  assumes "window_ok (Suc i) hi l h" and "uniform_lane (l ! i) (h ! i)" and "l ! i OR h ! i = - 1"
  shows "window_ok i hi l h"
  unfolding window_ok_def
proof (intro conjI allI impI)
  show "hi \<le> length l" "length h = length l"
    using assms(1) by (simp_all add: window_ok_def)
next
  fix j assume j: "i \<le> j \<and> j < hi"
  show "uniform_lane (l ! j) (h ! j)"
  proof (cases "j = i")
    case True
    then show ?thesis using assms(2) by simp
  next
    case False
    with j have "Suc i \<le> j \<and> j < hi" by simp
    then show ?thesis using assms(1) by (simp add: window_ok_def)
  qed
  show "l ! j OR h ! j = - 1"
  proof (cases "j = i")
    case True
    then show ?thesis using assms(3) by simp
  next
    case False
    with j have "Suc i \<le> j \<and> j < hi" by simp
    then show ?thesis using assms(1) by (simp add: window_ok_def)
  qed
qed

lemma counter_loop_succ:
  assumes "window_ok i hi l h" and "n < 64" and "carry \<noteq> 0"
    and "counter_loop i hi carry l h = (i', carry', l', h')"
  shows "window_trits i hi l' h' n = spec_ternary_succ (window_trits i hi l h n)
         \<and> window_ok i hi l' h'"
  using assms(1,3,4)
proof (induction "hi - i" arbitrary: i l h carry)
  case 0
  then have e: "\<not> i < hi" by simp
  with "0.prems" show ?case
    by (simp add: counter_loop_end window_trits_empty)
next
  case (Suc k)
  then have lt: "i < hi" by simp
  let ?l = "l[i := h ! i XOR l ! i]" and ?h = "h[i := l ! i]" and ?c = "h ! i AND NOT (l ! i)"
  have len: "i < length l" "i < length h"
    using Suc.prems(1) lt by (simp_all add: window_ok_def)
  have lane: "uniform_lane (l ! i) (h ! i)" "l ! i OR h ! i = - 1"
    using Suc.prems(1) lt by (simp_all add: window_ok_def)
  have ok': "window_ok (Suc i) hi ?l ?h"
    by (rule window_ok_update [OF Suc.prems(1)])
  have run: "counter_loop (Suc i) hi ?c ?l ?h = (i', carry', l', h')"
    using Suc.prems(3) by (simp add: counter_loop_step [OF lt Suc.prems(2)])
  from counter_loop_keeps [OF run]
  have keep: "length l' = length l" "length h' = length h" "l' ! i = ?l ! i" "h' ! i = ?h ! i"
    by simp_all
  have at_i: "l' ! i = h ! i XOR l ! i" "h' ! i = l ! i"
    using keep(3,4) len by simp_all
  have k: "k = hi - Suc i" using Suc.hyps(2) by simp
  consider (neg) "l ! i = - 1" "h ! i = 0" | (zero) "l ! i = - 1" "h ! i = - 1"
    | (pos) "l ! i = 0" "h ! i = - 1"
    using uniform_valid_cases [OF lane] by blast
  then show ?case
  proof cases
    case neg
    then have c0: "?c = 0" by simp
    from run have res: "l' = ?l" "h' = ?h" by (simp_all add: c0 counter_loop_stop)
    have w: "window_trits (Suc i) hi l' h' n = window_trits (Suc i) hi l h n"
      unfolding res by (rule window_trits_update)
    have ok: "window_ok i hi l' h'"
      using Suc.prems(1) len neg unfolding res
      by (auto simp: window_ok_def nth_list_update uniform_lane_def)
    show ?thesis
      using neg at_i w ok assms(2)
      by (simp add: window_trits_Cons [OF lt] seri_trit_uniform)
  next
    case zero
    then have c0: "?c = 0" by simp
    from run have res: "l' = ?l" "h' = ?h" by (simp_all add: c0 counter_loop_stop)
    have w: "window_trits (Suc i) hi l' h' n = window_trits (Suc i) hi l h n"
      unfolding res by (rule window_trits_update)
    have ok: "window_ok i hi l' h'"
      using Suc.prems(1) len zero unfolding res
      by (auto simp: window_ok_def nth_list_update uniform_lane_def)
    show ?thesis
      using zero at_i w ok assms(2)
      by (simp add: window_trits_Cons [OF lt] seri_trit_uniform)
  next
    case pos
    then have c1: "?c \<noteq> 0" by simp
    from Suc.hyps(1) [OF k ok' c1 run]
    have ih: "window_trits (Suc i) hi l' h' n = spec_ternary_succ (window_trits (Suc i) hi ?l ?h n)"
      "window_ok (Suc i) hi l' h'" by simp_all
    have w: "window_trits (Suc i) hi l' h' n = spec_ternary_succ (window_trits (Suc i) hi l h n)"
      using ih(1) by (simp add: window_trits_update)
    have ok: "window_ok i hi l' h'"
      using at_i pos by (intro window_ok_extend [OF ih(2)]) (simp_all add: uniform_lane_def)
    show ?thesis
      using pos at_i w ok assms(2)
      by (simp add: window_trits_Cons [OF lt] seri_trit_uniform)
  qed
qed


lemma trits_value_succ:
  assumes "list_all ValidTrit ts"
  shows "trits_value (spec_ternary_succ ts)
           = (if list_all (\<lambda>t. t = 1) ts then - trits_value ts else trits_value ts + 1)"
  using assms
proof (induction ts)
  case Nil
  show ?case by simp
next
  case (Cons t ts)
  then have "t = - 1 \<or> t = 0 \<or> t = 1" by (simp add: ValidTrit_iff)
  then show ?case using Cons by auto
qed

lemma window_trits_valid:
  assumes "window_ok i hi l h" and "n < 64"
  shows "list_all ValidTrit (window_trits i hi l h n)"
proof -
  have "ValidTrit (seri_trit (l ! j) (h ! j) n)" if "i \<le> j" "j < hi" for j
  proof -
    from assms(1) that have "uniform_lane (l ! j) (h ! j)" "l ! j OR h ! j = - 1"
      by (simp_all add: window_ok_def)
    from uniform_valid_cases [OF this] show ?thesis
      using seri_trit_uniform [OF assms(2)] by (auto simp: ValidTrit_iff)
  qed
  then show ?thesis
    by (simp add: window_trits_def list_all_iff)
qed

lemma lanes_window_ok:
  assumes "lanes_ok l h" and "uniform_window lo hi l h" and "hi \<le> StateSize"
  shows "window_ok lo hi l h"
  using assms
  by (auto simp: window_ok_def lanes_ok_def uniform_window_def list_all_iff list_all2_conv_all_nth)

lemma window_ok_mono: "window_ok lo hi l h \<Longrightarrow> hi' \<le> hi \<Longrightarrow> window_ok lo hi' l h"
  by (auto simp: window_ok_def)

lemma incr_succ:
  assumes "window_ok nonceInitStart HashTrinarySize l h" and "n < 64"
  shows "window_trits nonceInitStart HashTrinarySize (fst (snd (incr l h))) (snd (snd (incr l h))) n
           = spec_ternary_succ (window_trits nonceInitStart HashTrinarySize l h n)"
proof -
  obtain i c l' h' where r: "counter_loop nonceInitStart HashTrinarySize 1 l h = (i, c, l', h')"
    by (metis prod_cases4)
  from counter_loop_succ [OF assms _ r] show ?thesis
    by (simp add: incr_def r)
qed

lemma incrN_succ:
  assumes "window_ok nonceInitStart nonceIncrementStart l h" and "n < 64"
  shows "window_trits nonceInitStart nonceIncrementStart (fst (incrN k l h)) (snd (incrN k l h)) n
           = (spec_ternary_succ ^^ k) (window_trits nonceInitStart nonceIncrementStart l h n)"
  using assms(1)
proof (induction k arbitrary: l h)
  case 0
  show ?case by simp
next
  case (Suc k)
  obtain i c l' h' where r: "counter_loop nonceInitStart nonceIncrementStart 1 l h = (i, c, l', h')"
    by (metis prod_cases4)
  from counter_loop_succ [OF Suc.prems assms(2) _ r]
  have s: "window_trits nonceInitStart nonceIncrementStart l' h' n
             = spec_ternary_succ (window_trits nonceInitStart nonceIncrementStart l h n)"
    "window_ok nonceInitStart nonceIncrementStart l' h'" by simp_all
  from Suc.IH [OF s(2)] show ?case
    by (simp add: r s(1) funpow_swap1)
qed

lemma para_lane_uniform: "uniform_lane (fst (para_lane t)) (snd (para_lane t))"
  by (simp add: para_lane_def uniform_lane_def hBits_def lBits_def)

lemma para_uniform:
  assumes "para inp = Some (l, h)" and "hi \<le> StateSize"
  shows "uniform_window lo hi l h"
proof -
  from assms(1) have len: "StateSize \<le> length inp"
    and l: "l = map (\<lambda>t. fst (para_lane t)) (take StateSize inp)"
    and h: "h = map (\<lambda>t. snd (para_lane t)) (take StateSize inp)"
    by (auto simp: para_def split: if_splits)
  have "uniform_lane (l ! i) (h ! i)" if "i < hi" for i
  proof -
    from that assms(2) len have "i < length (take StateSize inp)" by simp
    then show ?thesis
      unfolding l h by (simp only: nth_map para_lane_uniform)
  qed
  then show ?thesis
    by (simp add: uniform_window_def list_all_iff)
qed

lemma seed_nonce_uniform:
  assumes "uniform_window nonceInitStart hi l h"
  shows "uniform_window nonceInitStart hi (fst (seed_nonce (l, h))) (snd (seed_nonce (l, h)))"
  using assms
  by (simp add: uniform_window_def list_all_iff seed_nonce_def nonceInitStart_def)

lemma uniform_lane_step: "uniform_lane a b \<Longrightarrow> uniform_lane (b XOR a) a"
  by (auto simp: uniform_lane_def)

lemma uniform_window_step:
  assumes "uniform_window lo hi l h"
  shows "uniform_window lo hi (l[i := h ! i XOR l ! i]) (h[i := l ! i])"
proof -
  have "uniform_lane (l[i := h ! i XOR l ! i] ! j) (h[i := l ! i] ! j)" if "lo \<le> j" "j < hi" for j
  proof -
    from assms that have u: "uniform_lane (l ! j) (h ! j)"
      by (simp add: uniform_window_def list_all_iff)
    show ?thesis
    proof (cases "j = i")
      case True
      have A: "xs[i := X] ! i = X \<or> xs[i := X] ! i = xs ! i" for X and xs :: lanes
        by (cases "i < length xs") (simp_all add: list_update_beyond)
      have x: "h ! i XOR l ! i = 0 \<or> h ! i XOR l ! i = - 1"
        using u True by (auto simp: uniform_lane_def)
      from A [of l "h ! i XOR l ! i"] A [of h "l ! i"] u x show ?thesis
        unfolding True uniform_lane_def by metis
    next
      case False
      with u show ?thesis by simp
    qed
  qed
  then show ?thesis
    by (simp add: uniform_window_def list_all_iff)
qed

lemma counter_loop_uniform:
  "uniform_window lo b l h \<Longrightarrow> counter_loop i hi carry l h = (i', carry', l', h') \<Longrightarrow>
     uniform_window lo b l' h'"
proof (induction i hi carry l h rule: counter_loop.induct)
  case (1 i hi carry lmid hmid)
  show ?case
  proof (cases "i < hi \<and> carry \<noteq> 0")
    case True
    from "1.prems"(2) True
    have "counter_loop (i + 1) hi (hmid ! i AND NOT (lmid ! i))
            (lmid[i := hmid ! i XOR lmid ! i]) (hmid[i := lmid ! i]) = (i', carry', l', h')"
      by (subst (asm) counter_loop.simps) (simp add: Let_def)
    from "1.IH" [OF True refl refl uniform_window_step [OF "1.prems"(1)] this]
    show ?thesis .
  next
    case False
    with "1.prems" show ?thesis
      by (subst (asm) counter_loop.simps) auto
  qed
qed

lemma incr_uniform:
  "uniform_window lo b l h \<Longrightarrow> uniform_window lo b (fst (snd (incr l h))) (snd (snd (incr l h)))"
  by (auto simp: incr_def split: prod.splits dest: counter_loop_uniform)

lemma incrN_uniform:
  "uniform_window lo b l h \<Longrightarrow> uniform_window lo b (fst (incrN k l h)) (snd (incrN k l h))"
proof (induction k arbitrary: l h)
  case 0
  then show ?case by simp
next
  case (Suc k)
  obtain i c l' h' where s: "counter_loop nonceInitStart nonceIncrementStart 1 l h = (i, c, l', h')"
    by (metis prod_cases4)
  from counter_loop_uniform [OF Suc.prems s] have "uniform_window lo b l' h'" .
  from Suc.IH [OF this] show ?case by (simp add: s)
qed

lemma incr_times_inv:
  assumes "lanes_ok l h" and "uniform_window lo b l h"
  shows "lanes_ok (fst (incr_times m l h)) (snd (incr_times m l h))
       \<and> uniform_window lo b (fst (incr_times m l h)) (snd (incr_times m l h))"
  using assms
proof (induction m arbitrary: l h)
  case 0
  then show ?case by simp
next
  case (Suc m)
  obtain f l' h' where s: "incr l h = (f, l', h')"
    by (metis prod_cases3)
  from incr_ok [OF Suc.prems(1)] incr_uniform [OF Suc.prems(2)]
  have "lanes_ok l' h'" "uniform_window lo b l' h'" by (simp_all add: s)
  from Suc.IH [OF this] show ?case by (simp add: s)
qed

lemma worker_state_ok:
  assumes "list_all ValidTrit state" and "length state = StateSize"
  shows "\<exists>l0 h0. map_option seed_nonce (para state) = Some (l0, h0)
           \<and> lanes_ok l0 h0 \<and> uniform_window nonceInitStart HashTrinarySize l0 h0"
proof -
  from para_ok [OF assms] obtain l h where p: "para state = Some (l, h)" "lanes_ok l h"
    by blast
  have "uniform_window nonceInitStart HashTrinarySize l h"
    by (rule para_uniform [OF p(1)]) (simp add: HashTrinarySize_def StateSize_def)
  from seed_nonce_uniform [OF this] seed_nonce_ok [OF p(2)] p(1)
  show ?thesis
    by (cases "seed_nonce (l, h)") simp
qed

text \<open>
  C7. A worker calls \<open>incrN\<close> and \<open>incr\<close> only on arrays that come from \<open>para\<close> of the
  729 trits of the Curl state and the eight seed assignments, stepped by \<open>incrN k\<close> and by
  any number \<open>m\<close> of earlier calls of \<open>incr\<close>. On every such state and at every bit
  position \<open>n\<close>, the trits decoded from the nonce field after \<open>incr\<close> are the
  balanced-ternary successor of the trits decoded before, and the trits of the window of
  \<open>incrN k\<close> are the \<open>k\<close>-fold successor of those of the seeded state. The successor of a
  sequence of valid trits has the value plus one, except that the sequence of all \<open>+1\<close>
  wraps to all \<open>-1\<close>.
\<close>

theorem counter_is_ternary_succ:
  assumes "list_all ValidTrit state" and "length state = StateSize" and "n < 64"
  shows "\<exists>l0 h0 l h.
           map_option seed_nonce (para state) = Some (l0, h0)
         \<and> window_trits nonceInitStart nonceIncrementStart (fst (incrN k l0 h0)) (snd (incrN k l0 h0)) n
             = (spec_ternary_succ ^^ k) (window_trits nonceInitStart nonceIncrementStart l0 h0 n)
         \<and> incr_times m (fst (incrN k l0 h0)) (snd (incrN k l0 h0)) = (l, h)
         \<and> window_trits nonceInitStart HashTrinarySize (fst (snd (incr l h))) (snd (snd (incr l h))) n
             = spec_ternary_succ (window_trits nonceInitStart HashTrinarySize l h n)
         \<and> list_all ValidTrit (window_trits nonceInitStart HashTrinarySize l h n)
         \<and> trits_value (spec_ternary_succ (window_trits nonceInitStart HashTrinarySize l h n))
             = (if list_all (\<lambda>t. t = 1) (window_trits nonceInitStart HashTrinarySize l h n)
                then - trits_value (window_trits nonceInitStart HashTrinarySize l h n)
                else trits_value (window_trits nonceInitStart HashTrinarySize l h n) + 1)"
proof -
  from worker_state_ok [OF assms(1,2)] obtain l0 h0 where
    s: "map_option seed_nonce (para state) = Some (l0, h0)" "lanes_ok l0 h0"
       "uniform_window nonceInitStart HashTrinarySize l0 h0"
    by blast
  have hi: "HashTrinarySize \<le> StateSize" by (simp add: HashTrinarySize_def StateSize_def)
  have sub: "nonceIncrementStart \<le> HashTrinarySize"
    by (simp add: nonceIncrementStart_def nonceInitStart_def nonceOffset_def
        HashTrinarySize_def NonceTrinarySize_def)
  have w0: "window_ok nonceInitStart HashTrinarySize l0 h0"
    using s(2,3) hi by (rule lanes_window_ok)
  have w0': "window_ok nonceInitStart nonceIncrementStart l0 h0"
    by (rule window_ok_mono [OF w0 sub])
  define l1 h1 where "l1 = fst (incrN k l0 h0)" and "h1 = snd (incrN k l0 h0)"
  have i1: "lanes_ok l1 h1" "uniform_window nonceInitStart HashTrinarySize l1 h1"
    unfolding l1_def h1_def by (rule incrN_ok [OF s(2)], rule incrN_uniform [OF s(3)])
  define l h where "l = fst (incr_times m l1 h1)" and "h = snd (incr_times m l1 h1)"
  from incr_times_inv [OF i1, of m]
  have i2: "lanes_ok l h" "uniform_window nonceInitStart HashTrinarySize l h"
    by (simp_all add: l_def h_def)
  have w: "window_ok nonceInitStart HashTrinarySize l h"
    using i2 hi by (rule lanes_window_ok)
  have v: "list_all ValidTrit (window_trits nonceInitStart HashTrinarySize l h n)"
    by (rule window_trits_valid [OF w assms(3)])
  have e: "incr_times m l1 h1 = (l, h)" by (simp add: l_def h_def)
  show ?thesis
    using s(1) incrN_succ [OF w0' assms(3), of k] e incr_succ [OF w assms(3)] v trits_value_succ [OF v]
    unfolding l1_def h1_def by blast
qed

theorem counter_is_ternary_succ_witness:
  "list_all ValidTrit (replicate 729 0) \<and> length (replicate 729 (0 :: 8 word)) = StateSize
   \<and> (5 :: nat) < 64
   \<and> (\<exists>l0 h0 l h.
           map_option seed_nonce (para (replicate 729 0)) = Some (l0, h0)
         \<and> window_trits nonceInitStart nonceIncrementStart (fst (incrN 2 l0 h0)) (snd (incrN 2 l0 h0)) 5
             = (spec_ternary_succ ^^ 2) (window_trits nonceInitStart nonceIncrementStart l0 h0 5)
         \<and> incr_times 3 (fst (incrN 2 l0 h0)) (snd (incrN 2 l0 h0)) = (l, h)
         \<and> window_trits nonceInitStart HashTrinarySize (fst (snd (incr l h))) (snd (snd (incr l h))) 5
             = spec_ternary_succ (window_trits nonceInitStart HashTrinarySize l h 5))"
proof -
  have a: "list_all ValidTrit (replicate 729 0)"
    by (simp add: list_all_iff ValidTrit_0)
  have b: "length (replicate 729 (0 :: 8 word)) = StateSize"
    by (simp add: StateSize_def)
  have c: "(5 :: nat) < 64" by simp
  from counter_is_ternary_succ [OF a b c, of 2 3] a b c show ?thesis by blast
qed

section \<open>The result of \<open>incr\<close>\<close>

text \<open>
  C8, at a state where it fails. Lanes 166 to 241 hold \<open>+1\<close> and lane 242 holds \<open>0\<close> (at
  every bit position; no pair \<open>(0, 0)\<close>). The carry runs up to lane 242, which takes it:
  the loop ends with \<open>i = HashTrinarySize\<close> and \<open>carry = 0\<close>, and \<open>incr\<close> returns true
  although no carry left the field.
\<close>

theorem incr_true_without_carry:
  "lanes_ok (replicate 166 (- 1) @ replicate 76 0 @ replicate 487 (- 1)) (replicate 729 (- 1))
   \<and> fst (incr (replicate 166 (- 1) @ replicate 76 0 @ replicate 487 (- 1)) (replicate 729 (- 1)))
   \<and> fst (snd (counter_loop nonceInitStart HashTrinarySize 1
        (replicate 166 (- 1) @ replicate 76 0 @ replicate 487 (- 1)) (replicate 729 (- 1)))) = 0"
  by code_simp

section \<open>Conversion between integers and trits\<close>


lemma sint_word_of_int_8:
  "- (2 ^ 7) \<le> x \<Longrightarrow> x < 2 ^ 7 \<Longrightarrow> sint (word_of_int x :: 8 word) = x"
  by (simp add: sint_sbintrunc' signed_take_bit_int_eq_self)




lemma sint_trit: "ValidTrit t \<Longrightarrow> sint t = - 1 \<or> sint t = 0 \<or> sint t = 1"
  by (auto simp: ValidTrit_iff)

lemma bt_max_pow: "2 * bt_max k + 1 = 3 ^ k"
  by (induction k) simp_all


lemma trits_value_bound:
  "list_all ValidTrit ts \<Longrightarrow> \<bar>trits_value ts\<bar> \<le> bt_max (length ts)"
proof (induction ts)
  case Nil
  show ?case by simp
next
  case (Cons t ts)
  then have "\<bar>trits_value ts\<bar> \<le> bt_max (length ts)" by simp
  moreover have "sint t = - 1 \<or> sint t = 0 \<or> sint t = 1"
    using Cons.prems by (simp add: sint_trit)
  ultimately show ?case by auto
qed

lemma TritsToInt_Cons: "TritsToInt (t # ts) = TritsToInt ts * 3 + scast t"
  by (simp add: TritsToInt_def)


lemma TritsToInt_zeros: "TritsToInt (replicate n 0) = 0"
  by (induction n) (simp_all add: TritsToInt_Cons, simp add: TritsToInt_def)




lemma loop_done: "\<not> 0 < sint a \<Longrightarrow> IntToTrits_loop a i dest = Some dest"
  by (subst IntToTrits_loop.simps) (simp add: word_sless_alt)


lemma trits_value_zeros: "list_all (\<lambda>t. t = 0) ts \<Longrightarrow> trits_value ts = 0"
  by (induction ts) simp_all









subsection \<open>Addition\<close>














lemma MinInt64_facts:
  "(- 9223372036854775808 :: 64 word) \<noteq> 0"
  "(- 9223372036854775808 :: 64 word) <s 0"
  "- (- 9223372036854775808 :: 64 word) = - 9223372036854775808"
  "\<not> 0 < sint (- 9223372036854775808 :: 64 word)"
  by (simp_all add: word_sless_alt)

text \<open>
  C2, at values where it fails. For the least \<open>int64\<close> the negation overflows and
  \<open>absoluteValue\<close> stays negative: the loop is skipped and, whatever length was
  allocated, the result is all zeros, which \<open>TritsToInt\<close> maps to \<open>0\<close>. For
  \<open>27021597764222979 = 3 * (2 ^ 53 + 1)\<close> the quotient \<open>2 ^ 53 + 1\<close> is rounded to \<open>2 ^ 53\<close> by
  the conversion to \<open>float64\<close>, and the round trip gives \<open>27021597764222976\<close>.
\<close>

theorem IntToTrits_TritsToInt_fails:
  "IntToTrits n (- 9223372036854775808) = Inr (replicate n 0)
   \<and> TritsToInt (replicate n 0) = 0
   \<and> (0 :: 64 word) \<noteq> - 9223372036854775808
   \<and> map_sum id TritsToInt (IntToTrits 36 27021597764222979) = Inr 27021597764222976
   \<and> (27021597764222976 :: 64 word) \<noteq> 27021597764222979"
proof -
  have a: "IntToTrits n (- 9223372036854775808) = Inr (replicate n 0)"
    using MinInt64_facts
    by (simp add: IntToTrits_def loop_done)
  have b: "map_sum id TritsToInt (IntToTrits 36 27021597764222979) = Inr 27021597764222976"
    by code_simp
  show ?thesis
    using a b MinInt64_facts(1) by (simp add: TritsToInt_zeros)
qed

section \<open>The codec between hashes and bytes\<close>

subsection \<open>Limb arithmetic\<close>

lemma unat_lt_32: "unat (x :: 32 word) < 4294967296"
  using unsigned_less [of x] by simp

lemma unat_ucast_32_64: "unat (ucast (x :: 32 word) :: 64 word) = unat x"
  using unat_lt_32 [of x] by (simp add: unsigned_ucast_eq take_bit_nat_eq_self)

lemma unat_ucast_64_32: "unat (ucast (v :: 64 word) :: 32 word) = unat v mod 4294967296"
  by (simp add: unsigned_ucast_eq take_bit_eq_mod)

lemma unat_drop_32: "unat (drop_bit 32 (v :: 64 word)) = unat v div 4294967296"
  by (simp only: unat_drop_bit_eq) (simp add: drop_bit_eq_div)

lemma unat_mul3_add:
  "unat ((ucast (x :: 32 word) :: 64 word) * 3 + ucast (c :: 32 word)) = unat x * 3 + unat c"
  using unat_lt_32 [of x] unat_lt_32 [of c]
  by (simp add: unat_word_ariths unat_ucast_32_64)

lemma unat_add2:
  "unat ((ucast (x :: 32 word) :: 64 word) + ucast (y :: 32 word)) = unat x + unat y"
  using unat_lt_32 [of x] unat_lt_32 [of y]
  by (simp add: unat_word_ariths unat_ucast_32_64)

lemma unat_add3:
  "unat ((ucast (x :: 32 word) :: 64 word) + ucast (y :: 32 word) + of_bool c)
     = unat x + unat y + of_bool c"
  using unat_lt_32 [of x] unat_lt_32 [of y]
  by (cases c) (simp_all add: unat_word_ariths unat_ucast_32_64)

lemma drop_32_nonzero: "drop_bit 32 (v :: 64 word) \<noteq> 0 \<longleftrightarrow> 4294967296 \<le> unat v"
proof -
  have "drop_bit 32 v = 0 \<longleftrightarrow> unat (drop_bit 32 v) = 0"
    by (simp add: unat_eq_0)
  then show ?thesis
    by (simp add: unat_drop_32 div_eq_0_iff not_less)
qed

lemma unat_NOT_32: "unat (NOT (x :: 32 word)) = 4294967295 - unat x"
proof -
  have "x + NOT x = - 1" by simp
  then have "NOT x = - 1 - x" by (metis add_diff_cancel_left')
  moreover have "x \<le> - 1" by simp
  ultimately have "unat (NOT x) = unat (- 1 :: 32 word) - unat x"
    by (simp add: unat_sub)
  then show ?thesis by (simp add: unsigned_minus_1_eq_mask mask_eq_exp_minus_1)
qed

lemma unat_max_32: "unat (- 1 :: 32 word) = 4294967295"
  by (simp add: unsigned_minus_1_eq_mask mask_eq_exp_minus_1)

lemma plus_1_eq_0_iff: "(x :: 32 word) + 1 = 0 \<longleftrightarrow> unat x = 4294967295"
proof -
  have "x + 1 = 0 \<longleftrightarrow> x = - 1"
    by (simp add: add_eq_0_iff2)
  also have "\<dots> \<longleftrightarrow> unat x = unat (- 1 :: 32 word)"
    by (simp only: word_unat_eq_iff)
  finally show ?thesis by (simp only: unat_max_32)
qed

lemma mod_carry_32:
  assumes "(n :: nat) < 2 * 4294967296"
  shows "n mod 4294967296 + 4294967296 * of_bool (4294967296 \<le> n) = n"
proof (cases "4294967296 \<le> n")
  case True
  then have "n mod 4294967296 = (n - 4294967296) mod 4294967296"
    by (simp add: le_mod_geq)
  also have "\<dots> = n - 4294967296"
    using assms by (intro mod_less) simp
  finally show ?thesis using True by simp
next
  case False
  then show ?thesis by simp
qed

lemma limbs_value_append:
  "limbs_value (xs @ ys) = limbs_value xs + 2 ^ (32 * length xs) * limbs_value ys"
  by (induction xs) (simp_all add: algebra_simps power_add)

lemma limbs_value_less: "limbs_value xs < 2 ^ (32 * length xs)"
proof (induction xs)
  case Nil
  show ?case by simp
next
  case (Cons x xs)
  have "unat x + 2 ^ 32 * limbs_value xs < 2 ^ 32 * (1 + limbs_value xs)"
    using unat_lt_32 [of x] by simp
  also have "\<dots> \<le> 2 ^ 32 * 2 ^ (32 * length xs)"
    using Cons.IH by (intro mult_left_mono) simp_all
  finally show ?case by (simp add: power_add)
qed


lemma limbs_value_take_drop:
  "limbs_value xs = limbs_value (take k xs) + 2 ^ (32 * min k (length xs)) * limbs_value (drop k xs)"
  using limbs_value_append [of "take k xs" "drop k xs"] by (simp add: min.commute)

lemma limbs_value_zero_iff: "limbs_value xs = 0 \<longleftrightarrow> list_all (\<lambda>x. x = 0) xs"
  by (induction xs) (auto simp: unat_eq_0)

lemma IsNull_value: "bigint_IsNull b \<longleftrightarrow> limbs_value b = 0"
  by (simp add: bigint_IsNull_def limbs_value_zero_iff)

lemma Not_value:
  "limbs_value (bigint_Not b) + limbs_value b + 1 = 2 ^ (32 * length b)
   \<and> length (bigint_Not b) = length b"
proof (induction b)
  case Nil
  show ?case by (simp add: bigint_Not_def)
next
  case (Cons x xs)
  have "unat (NOT x) + unat x = 4294967295"
    using unat_lt_32 [of x] by (simp add: unat_NOT_32)
  then show ?case
    using Cons.IH by (simp add: bigint_Not_def power_add algebra_simps)
qed

subsection \<open>Multiplication by the radix\<close>

lemma mul_radix_value:
  assumes "n \<le> length base"
  shows "\<exists>base' c. mul_radix n base carry = Some (base', c) \<and> length base' = length base
           \<and> drop n base' = drop n base
           \<and> limbs_value (take n base') + 2 ^ (32 * n) * unat c
                = 3 * limbs_value (take n base) + unat carry"
  using assms
proof (induction n arbitrary: base carry)
  case 0
  show ?case by simp
next
  case (Suc n)
  then obtain x xs where b: "base = x # xs" by (cases base) auto
  define v where "v = (ucast x :: 64 word) * 3 + ucast carry"
  have uv: "unat v = unat x * 3 + unat carry"
    by (simp add: v_def unat_mul3_add)
  from Suc.prems b have "n \<le> length xs" by simp
  from Suc.IH [OF this, of "ucast (drop_bit 32 v)"]
  obtain ys c where r: "mul_radix n xs (ucast (drop_bit 32 v)) = Some (ys, c)"
      "length ys = length xs" "drop n ys = drop n xs"
      "limbs_value (take n ys) + 2 ^ (32 * n) * unat c
         = 3 * limbs_value (take n xs) + unat (ucast (drop_bit 32 v) :: 32 word)"
    by blast
  have hi: "unat (ucast (drop_bit 32 v) :: 32 word) = unat v div 4294967296"
  proof -
    have "unat v div 4294967296 < 4294967296"
      using unat_lt_32 [of x] unat_lt_32 [of carry] by (simp add: uv)
    then show ?thesis by (simp add: unat_ucast_64_32 unat_drop_32)
  qed
  have lo: "unat (ucast v :: 32 word) = unat v mod 4294967296"
    by (simp add: unat_ucast_64_32)
  have "limbs_value (take (Suc n) (ucast v # ys)) + 2 ^ (32 * Suc n) * unat c
          = unat v mod 4294967296 + 4294967296 * (limbs_value (take n ys) + 2 ^ (32 * n) * unat c)"
    by (simp add: lo algebra_simps power_add)
  also have "\<dots> = unat v mod 4294967296 + 4294967296 * (unat v div 4294967296)
                     + 4294967296 * (3 * limbs_value (take n xs))"
    by (simp only: r(4) hi) (simp add: algebra_simps)
  also have "\<dots> = unat v + 4294967296 * (3 * limbs_value (take n xs))"
    by simp
  also have "\<dots> = 3 * limbs_value (take (Suc n) base) + unat carry"
    by (simp add: uv b algebra_simps)
  finally have e: "limbs_value (take (Suc n) (ucast v # ys)) + 2 ^ (32 * Suc n) * unat c
                     = 3 * limbs_value (take (Suc n) base) + unat carry" .
  have "mul_radix (Suc n) base carry = Some (ucast v # ys, c)"
    by (simp add: b v_def [symmetric] Let_def r(1))
  with e r(2,3) b show ?case by simp
qed

subsection \<open>Adding a small number\<close>

lemma carry_up_value:
  assumes "limbs_value xs + of_bool c < 2 ^ (32 * length xs)"
  shows "\<exists>ys k. carry_up xs c = Some (ys, k) \<and> length ys = length xs \<and> k \<le> length xs
           \<and> drop k ys = drop k xs \<and> limbs_value ys = limbs_value xs + of_bool c"
  using assms
proof (induction xs arbitrary: c)
  case Nil
  then show ?case by (cases c) simp_all
next
  case (Cons x xs)
  show ?case
  proof (cases c)
    case False
    then show ?thesis by simp
  next
    case True
    have ux: "unat (x + 1) = (unat x + 1) mod 4294967296"
      by (simp add: unat_word_ariths)
    note z = plus_1_eq_0_iff [of x]
    have "limbs_value xs + of_bool (x + 1 = 0) < 2 ^ (32 * length xs)"
    proof (cases "x + 1 = 0")
      case True
      with z have "unat x = 4294967295" by simp
      with Cons.prems \<open>c\<close> have "4294967296 * (1 + limbs_value xs) < 4294967296 * 2 ^ (32 * length xs)"
        by (simp add: power_add)
      then show ?thesis using True by simp
    next
      case False
      then show ?thesis using limbs_value_less [of xs] by simp
    qed
    from Cons.IH [OF this]
    obtain ys k where r: "carry_up xs (x + 1 = 0) = Some (ys, k)" "length ys = length xs"
        "k \<le> length xs" "drop k ys = drop k xs"
        "limbs_value ys = limbs_value xs + of_bool (x + 1 = 0)"
      by blast
    have v: "unat (x + 1) + 4294967296 * of_bool (x + 1 = 0) = unat x + 1"
    proof (cases "x + 1 = 0")
      case True
      with z show ?thesis by simp
    next
      case False
      with z have "unat x + 1 < 4294967296" using unat_lt_32 [of x] by simp
      with False show ?thesis by (simp add: ux)
    qed
    have "limbs_value ((x + 1) # ys) = limbs_value (x # xs) + 1"
      using v by (simp add: r(5) algebra_simps)
    with r True show ?thesis by simp
  qed
qed

lemma AddSmall_value:
  assumes "b \<noteq> []" and "limbs_value b + unat a < 2 ^ (32 * length b)"
  shows "\<exists>ys k. bigint_AddSmall b a = Some (ys, k) \<and> length ys = length b
           \<and> 1 \<le> k \<and> k \<le> length b \<and> drop k ys = drop k b
           \<and> limbs_value ys = limbs_value b + unat a"
proof -
  from assms(1) obtain x xs where b: "b = x # xs" by (cases b) auto
  define v where "v = (ucast x :: 64 word) + ucast a"
  have uv: "unat v = unat x + unat a" by (simp add: v_def unat_add2)
  define c where "c = (drop_bit 32 v \<noteq> 0)"
  have cv: "c \<longleftrightarrow> 4294967296 \<le> unat x + unat a"
    by (simp add: c_def drop_32_nonzero uv)
  have lo: "unat (ucast v :: 32 word) + 4294967296 * of_bool c = unat x + unat a"
  proof -
    have "unat v < 2 * 4294967296"
      using unat_lt_32 [of x] unat_lt_32 [of a] by (simp add: uv)
    from mod_carry_32 [OF this] show ?thesis
      by (simp add: unat_ucast_64_32 cv uv)
  qed
  have "4294967296 * (limbs_value xs + of_bool c) \<le> unat x + unat a + 4294967296 * limbs_value xs"
    using lo by (simp add: algebra_simps)
  also have "\<dots> < 4294967296 * 2 ^ (32 * length xs)"
    using assms(2) by (simp add: b power_add algebra_simps)
  finally have "limbs_value xs + of_bool c < 2 ^ (32 * length xs)" by simp
  from carry_up_value [OF this]
  obtain ys k where r: "carry_up xs c = Some (ys, k)" "length ys = length xs" "k \<le> length xs"
      "drop k ys = drop k xs" "limbs_value ys = limbs_value xs + of_bool c"
    by blast
  have "limbs_value (ucast v # ys) = limbs_value b + unat a"
    using lo by (simp add: r(5) b algebra_simps)
  moreover have "bigint_AddSmall b a = Some (ucast v # ys, Suc k)"
    by (simp add: bigint_AddSmall_def b v_def [symmetric] Let_def c_def [symmetric] r(1))
  ultimately show ?thesis using r(2,3,4) b by simp
qed


subsection \<open>Addition, subtraction and comparison\<close>

lemma add_limbs_value:
  assumes "length xs = length ys"
  shows "length (fst (add_limbs xs ys c)) = length xs
         \<and> limbs_value (fst (add_limbs xs ys c))
             + 2 ^ (32 * length xs) * of_bool (snd (add_limbs xs ys c))
           = limbs_value xs + limbs_value ys + of_bool c"
  using assms
proof (induction xs ys arbitrary: c rule: list_induct2)
  case Nil
  show ?case by simp
next
  case (Cons x xs y ys)
  define v where "v = (ucast x :: 64 word) + ucast y + of_bool c"
  define c' where "c' = (drop_bit 32 v \<noteq> 0)"
  have uv: "unat v = unat x + unat y + of_bool c" by (simp add: v_def unat_add3)
  have cv: "c' \<longleftrightarrow> 4294967296 \<le> unat v" by (simp add: c'_def drop_32_nonzero)
  have lo: "unat (ucast v :: 32 word) + 4294967296 * of_bool c' = unat v"
  proof -
    have "unat v < 2 * 4294967296"
      using unat_lt_32 [of x] unat_lt_32 [of y] by (cases c) (simp_all add: uv)
    from mod_carry_32 [OF this] show ?thesis
      by (simp add: unat_ucast_64_32 cv)
  qed
  from Cons.IH [of c']
  have ih: "length (fst (add_limbs xs ys c')) = length xs"
    "limbs_value (fst (add_limbs xs ys c')) + 2 ^ (32 * length xs) * of_bool (snd (add_limbs xs ys c'))
       = limbs_value xs + limbs_value ys + of_bool c'"
    by simp_all
  have st: "add_limbs (x # xs) (y # ys) c
              = (ucast v # fst (add_limbs xs ys c'), snd (add_limbs xs ys c'))"
    by (simp add: v_def [symmetric] Let_def c'_def [symmetric])
  have "limbs_value (ucast v # fst (add_limbs xs ys c'))
          + 2 ^ (32 * length (x # xs)) * of_bool (snd (add_limbs xs ys c'))
        = unat (ucast v :: 32 word)
          + 4294967296 * (limbs_value (fst (add_limbs xs ys c'))
                          + 2 ^ (32 * length xs) * of_bool (snd (add_limbs xs ys c')))"
    by (simp add: power_add algebra_simps)
  also have "\<dots> = unat (ucast v :: 32 word) + 4294967296 * of_bool c'
                     + 4294967296 * (limbs_value xs + limbs_value ys)"
    by (simp only: ih(2)) (simp add: algebra_simps)
  also have "\<dots> = limbs_value (x # xs) + limbs_value (y # ys) + of_bool c"
    by (simp only: lo uv) (simp add: algebra_simps)
  finally show ?case
    using ih(1) by (simp only: st fst_conv snd_conv) simp
qed

lemma MustAdd_value:
  assumes "length b = length rh" and "limbs_value b + limbs_value rh < 2 ^ (32 * length b)"
  shows "\<exists>zs. bigint_MustAdd b rh = Some zs \<and> length zs = length b
           \<and> limbs_value zs = limbs_value b + limbs_value rh"
proof -
  note a = add_limbs_value [OF assms(1), of False]
  have "\<not> snd (add_limbs b rh False)"
  proof
    assume "snd (add_limbs b rh False)"
    with a have "2 ^ (32 * length b) \<le> limbs_value b + limbs_value rh" by simp
    with assms(2) show False by simp
  qed
  with a assms(1) show ?thesis by (simp add: bigint_MustAdd_def Let_def)
qed

lemma MustSub_value:
  assumes "length b = length rh" and "limbs_value rh \<le> limbs_value b"
  shows "\<exists>zs. bigint_MustSub b rh = Some zs \<and> length zs = length b
           \<and> limbs_value zs + limbs_value rh = limbs_value b"
proof -
  have l: "length b = length (map (\<lambda>x. NOT x) rh)" using assms(1) by simp
  note a = add_limbs_value [OF l, of True]
  note n = Not_value [of rh, unfolded bigint_Not_def]
  define r where "r = add_limbs b (map (\<lambda>x. NOT x) rh) True"
  define P where "P = (2 :: nat) ^ (32 * length b)"
  have e: "limbs_value (fst r) + P * of_bool (snd r) + limbs_value rh = limbs_value b + P"
    using a n assms(1) by (simp add: r_def P_def)
  have lt: "limbs_value (fst r) < P"
    using limbs_value_less [of "fst r"] a by (simp add: r_def P_def)
  have c: "snd r"
  proof (rule ccontr)
    assume "\<not> snd r"
    with e have "limbs_value (fst r) + limbs_value rh = limbs_value b + P" by simp
    with lt assms(2) show False by simp
  qed
  with e have "limbs_value (fst r) + limbs_value rh = limbs_value b" by simp
  with c a assms(1) show ?thesis
    by (simp add: bigint_MustSub_def Let_def r_def)
qed

lemma cmp_limbs_value:
  assumes "length xs = length ys"
  shows "cmp_limbs xs ys
           = (if limbs_value xs < limbs_value ys then - 1
              else if limbs_value xs = limbs_value ys then 0 else 1)"
  using assms
proof (induction xs ys rule: list_induct2)
  case Nil
  show ?case by simp
next
  case (Cons x xs y ys)
  have ux: "unat x < 4294967296" and uy: "unat y < 4294967296"
    by (rule unat_lt_32)+
  consider (lt) "limbs_value xs < limbs_value ys" | (eq) "limbs_value xs = limbs_value ys"
    | (gt) "limbs_value ys < limbs_value xs" by linarith
  then show ?case
  proof cases
    case lt
    then have "limbs_value xs + 1 \<le> limbs_value ys" by simp
    then have "4294967296 * limbs_value xs + 4294967296 \<le> 4294967296 * limbs_value ys" by simp
    with ux have "limbs_value (x # xs) < limbs_value (y # ys)" by simp
    with lt Cons.IH show ?thesis by (simp add: Let_def)
  next
    case eq
    with Cons.IH show ?thesis
      by (auto simp: Let_def word_less_nat_alt word_unat_eq_iff)
  next
    case gt
    then have "limbs_value ys + 1 \<le> limbs_value xs" by simp
    then have "4294967296 * limbs_value ys + 4294967296 \<le> 4294967296 * limbs_value xs" by simp
    with uy have "limbs_value (y # ys) < limbs_value (x # xs)" by simp
    with gt Cons.IH show ?thesis by (simp add: Let_def)
  qed
qed

lemma MustCmp_value:
  assumes "length lh = length rh"
  shows "bigint_MustCmp lh rh
           = Some (if limbs_value lh < limbs_value rh then - 1
                   else if limbs_value lh = limbs_value rh then 0 else 1)"
  using assms by (simp add: bigint_MustCmp_def cmp_limbs_value)


subsection \<open>From trits to limbs\<close>

lemma digit_cases:
  assumes "ValidTrit e"
  shows "unat (e + 1) < 3" "unat (scast (e + 1) :: 32 word) = unat (e + 1)"
    "int (unat (e + 1)) = sint e + 1" "uint (e + 1) = sint e + 1"
  using assms by (auto simp: ValidTrit_iff)

lemma digits_value_trits_value:
  "list_all ValidTrit ts \<Longrightarrow> int (digits_value ts) = trits_value ts + bt_max (length ts)"
  by (induction ts) (simp_all add: digit_cases(4))

lemma digits_value_less: "list_all ValidTrit ts \<Longrightarrow> digits_value ts < 3 ^ length ts"
proof (induction ts)
  case Nil
  show ?case by simp
next
  case (Cons t ts)
  then have "unat (t + 1) < 3" "digits_value ts + 1 \<le> 3 ^ length ts"
    by (simp_all add: digit_cases(1) Suc_le_eq)
  then have "unat (t + 1) + 3 * digits_value ts < 3 * 3 ^ length ts"
    by linarith
  then show ?case by simp
qed

lemma zero_tail:
  assumes "limbs_value (drop k xs) = 0" and "k \<le> j"
  shows "limbs_value (drop j xs) = 0"
proof -
  have "set (drop j xs) \<subseteq> set (drop k xs)"
    using assms(2) by (rule set_drop_subset_set_drop)
  with assms(1) show ?thesis
    by (auto simp: limbs_value_zero_iff list_all_iff)
qed

lemma limbs_value_zero_tail:
  assumes "limbs_value (drop k xs) = 0" and "k \<le> length xs"
  shows "limbs_value xs = limbs_value (take k xs)"
  using limbs_value_take_drop [of xs k] assms by simp

lemma TritsToBytes_step_value:
  assumes "1 \<le> sz" and "sz \<le> length base" and "limbs_value (drop sz base) = 0"
    and "ValidTrit e" and "3 * limbs_value base + unat (e + 1) < 2 ^ (32 * length base)"
  shows "\<exists>base' sz'. TritsToBytes_step e (base, sz) = Some (base', sz')
           \<and> length base' = length base \<and> 1 \<le> sz' \<and> sz' \<le> length base
           \<and> limbs_value (drop sz' base') = 0
           \<and> limbs_value base' = 3 * limbs_value base + unat (e + 1)"
proof -
  define P where "P = (2 :: nat) ^ (32 * length base)"
  define V where "V = limbs_value base"
  have Vt: "limbs_value (take sz base) = V"
    using limbs_value_zero_tail [OF assms(3,2)] by (simp add: V_def)
  from mul_radix_value [OF assms(2), of 0]
  obtain base1 c where m: "mul_radix sz base 0 = Some (base1, c)" "length base1 = length base"
      "drop sz base1 = drop sz base"
      "limbs_value (take sz base1) + 2 ^ (32 * sz) * unat c = 3 * V"
    by (auto simp: Vt)
  have z1: "limbs_value (drop sz base1) = 0" using assms(3) m(3) by simp
  have "\<exists>base2 sz2. (if 0 < c then (if sz < length base1 then Some (base1[sz := c], sz + 1) else None)
                        else Some (base1, sz)) = Some (base2, sz2)
          \<and> length base2 = length base \<and> 1 \<le> sz2 \<and> sz2 \<le> length base
          \<and> limbs_value (drop sz2 base2) = 0 \<and> limbs_value base2 = 3 * V"
  proof (cases "0 < c")
    case False
    then have c0: "unat c = 0" by (simp add: unat_eq_0 word_greater_zero_iff)
    have "limbs_value base1 = 3 * V"
      using limbs_value_zero_tail [OF z1] m(2,4) assms(2) by (simp add: c0)
    with False m(2) z1 assms(1,2) show ?thesis by simp
  next
    case True
    then have "c \<noteq> 0" by (simp add: word_greater_zero_iff)
    then have "0 < unat c" by (simp add: unat_gt_0)
    then have c1: "1 \<le> unat c" by simp
    have lt: "sz < length base"
    proof (rule ccontr)
      assume "\<not> sz < length base"
      with assms(2) have e: "sz = length base" by simp
      have p1: "P \<le> P * unat c" using c1 by simp
      have "limbs_value (take sz base1) + P * unat c = 3 * V"
        using m(4) by (simp add: e P_def)
      with p1 have "P \<le> 3 * V" by linarith
      with assms(5) show False by (simp add: P_def V_def)
    qed
    have u: "base1[sz := c] = take sz base1 @ c # drop (Suc sz) base1"
      using lt m(2) by (simp add: upd_conv_take_nth_drop)
    have z2: "limbs_value (drop (Suc sz) base1) = 0"
      by (rule zero_tail [OF z1]) simp
    have "limbs_value (base1[sz := c]) = limbs_value (take sz base1) + 2 ^ (32 * sz) * unat c"
      using lt m(2) by (simp add: u limbs_value_append z2 min_def)
    then have v: "limbs_value (base1[sz := c]) = 3 * V" by (simp add: m(4))
    have "limbs_value (drop (sz + 1) (base1[sz := c])) = 0"
      using z2 by (simp add: drop_update_cancel)
    with True lt m(2) v show ?thesis by simp
  qed
  then obtain base2 sz2 where
    s2: "(if 0 < c then (if sz < length base1 then Some (base1[sz := c], sz + 1) else None)
          else Some (base1, sz)) = Some (base2, sz2)"
    and p2: "length base2 = length base" "1 \<le> sz2" "sz2 \<le> length base"
      "limbs_value (drop sz2 base2) = 0" "limbs_value base2 = 3 * V"
    by blast
  define trit where "trit = (scast (e + 1) :: 32 word)"
  have ut: "unat trit = unat (e + 1)" by (simp add: trit_def digit_cases(2) [OF assms(4)])
  have ne: "base2 \<noteq> []" using p2(1,2,3) by auto
  have bd: "limbs_value base2 + unat trit < 2 ^ (32 * length base2)"
    using assms(5) by (simp add: p2(1,5) ut V_def)
  from AddSmall_value [OF ne bd]
  obtain base3 ns where a: "bigint_AddSmall base2 trit = Some (base3, ns)"
      "length base3 = length base2" "1 \<le> ns" "ns \<le> length base2" "drop ns base3 = drop ns base2"
      "limbs_value base3 = limbs_value base2 + unat trit"
    by blast
  define sz3 where "sz3 = (if sz2 < ns then ns else sz2)"
  have "drop sz3 base3 = drop (sz3 - ns) (drop ns base3)" by (simp add: sz3_def)
  also have "\<dots> = drop sz3 base2" by (simp add: a(5) sz3_def)
  finally have "limbs_value (drop sz3 base3) = limbs_value (drop sz3 base2)" by simp
  also have "\<dots> = 0" by (rule zero_tail [OF p2(4)]) (simp add: sz3_def)
  finally have z3: "limbs_value (drop sz3 base3) = 0" .
  have "TritsToBytes_step e (base, sz) = Some (base3, sz3)"
    unfolding TritsToBytes_step_def
    by (simp only: prod.case m(1) option.case s2 Let_def trit_def [symmetric] a(1) sz3_def)
  moreover have "limbs_value base3 = 3 * limbs_value base + unat (e + 1)"
    by (simp add: a(6) p2(5) ut V_def)
  moreover have "1 \<le> sz3" "sz3 \<le> length base"
    using p2(1,2,3) a(3,4) by (simp_all add: sz3_def)
  ultimately show ?thesis using a(2) p2(1) z3 by simp
qed

lemma pow3_242_less: "(3 :: nat) ^ 242 < 2 ^ 384"
  by simp

lemma fold_step_value:
  assumes "list_all ValidTrit es" and "length base = 12" and "1 \<le> sz" and "sz \<le> 12"
    and "limbs_value (drop sz base) = 0" and "limbs_value base < 3 ^ k"
    and "k + length es \<le> 242"
  shows "\<exists>base' sz'. fold_option TritsToBytes_step es (base, sz) = Some (base', sz')
           \<and> length base' = 12
           \<and> limbs_value base' = foldl (\<lambda>v e. 3 * v + unat (e + 1)) (limbs_value base) es"
  using assms
proof (induction es arbitrary: base sz k)
  case Nil
  then show ?case by simp
next
  case (Cons e es)
  have ve: "ValidTrit e" and ves: "list_all ValidTrit es" using Cons.prems(1) by simp_all
  have d: "unat (e + 1) < 3" by (rule digit_cases(1) [OF ve])
  have "limbs_value base + 1 \<le> 3 ^ k" using Cons.prems(6) by simp
  then have "3 * limbs_value base + 3 \<le> 3 * 3 ^ k" by simp
  with d have nb: "3 * limbs_value base + unat (e + 1) < 3 ^ Suc k" by simp
  have "(3 :: nat) ^ Suc k \<le> 3 ^ 242"
    using Cons.prems(7) by (intro power_increasing) simp_all
  with nb pow3_242_less have "3 * limbs_value base + unat (e + 1) < 2 ^ 384" by linarith
  then have bd: "3 * limbs_value base + unat (e + 1) < 2 ^ (32 * length base)"
    by (simp add: Cons.prems(2))
  have sl: "sz \<le> length base" using Cons.prems(2,4) by simp
  from TritsToBytes_step_value [OF Cons.prems(3) sl Cons.prems(5) ve bd]
  obtain base' sz' where s: "TritsToBytes_step e (base, sz) = Some (base', sz')"
      "length base' = length base" "1 \<le> sz'" "sz' \<le> length base"
      "limbs_value (drop sz' base') = 0"
      "limbs_value base' = 3 * limbs_value base + unat (e + 1)"
    by blast
  have l': "length base' = 12" "sz' \<le> 12" using s(2,4) Cons.prems(2) by simp_all
  have nb': "limbs_value base' < 3 ^ Suc k" using nb s(6) by simp
  have k': "Suc k + length es \<le> 242" using Cons.prems(7) by simp
  from Cons.IH [OF ves l'(1) s(3) l'(2) s(5) nb' k']
  show ?case by (simp add: s(1) s(6))
qed

lemma foldl_rev_digits:
  "foldl (\<lambda>v e. 3 * v + unat (e + 1)) 0 (rev ts) = digits_value ts"
  by (induction ts) simp_all

lemma halfThree_value: "2 * limbs_value halfThree + 1 = 3 ^ 242" "length halfThree = 12"
  by (simp_all add: halfThree_def)

lemma halfThree_bt_max: "int (limbs_value halfThree) = bt_max 242"
proof -
  have "2 * int (limbs_value halfThree) + 1 = int (2 * limbs_value halfThree + 1)" by simp
  also have "\<dots> = 3 ^ 242" by (simp only: halfThree_value(1)) simp
  finally show ?thesis using bt_max_pow [of 242] by simp
qed


lemma trits_value_all_neg:
  "list_all (\<lambda>e. e = - 1) ts \<Longrightarrow> trits_value ts = - bt_max (length ts)"
  by (induction ts) simp_all

lemma digits_value_zero:
  "list_all ValidTrit ts \<Longrightarrow> digits_value ts = 0 \<Longrightarrow> list_all (\<lambda>e. e = - 1) ts"
  by (induction ts) (auto simp: ValidTrit_iff)

lemma halfThree_pos: "0 < limbs_value halfThree" "limbs_value halfThree < 2 ^ 383"
  by (simp_all add: halfThree_def)

lemma TritsToBytes_limbs_value:
  assumes "length trits = 243" and "list_all ValidTrit trits"
  shows "\<exists>base. TritsToBytes_limbs trits = Some base \<and> length base = 12
           \<and> int (limbs_value base) = trits_value (take 242 trits) mod 2 ^ 384"
proof -
  define ts where "ts = take 242 trits"
  define x where "x = trits_value ts"
  define H where "H = limbs_value halfThree"
  define U where "U = digits_value ts"
  have lts: "length ts = 242" using assms(1) by (simp add: ts_def)
  have vts: "list_all ValidTrit ts"
    using assms(2) by (auto simp: ts_def list_all_iff dest: in_set_takeD)
  have HU: "int U = x + int H"
    using digits_value_trits_value [OF vts] by (simp add: U_def x_def H_def lts halfThree_bt_max)
  have Hb: "0 < H" "H < 2 ^ 383" using halfThree_pos by (simp_all add: H_def)
  have lH: "length halfThree = 12" by (rule halfThree_value(2))
  show ?thesis
  proof (cases "list_all (\<lambda>e. e = - 1) ts")
    case True
    from trits_value_all_neg [OF True] have xn: "x = - int H"
      by (simp add: x_def lts H_def halfThree_bt_max)
    from Not_value [of halfThree]
    have n: "limbs_value (bigint_Not halfThree) + H + 1 = 2 ^ 384"
      "length (bigint_Not halfThree) = 12" by (simp_all add: lH H_def)
    have ne: "bigint_Not halfThree \<noteq> []" using n(2) by auto
    have bd: "limbs_value (bigint_Not halfThree) + unat (1 :: 32 word)
                < 2 ^ (32 * length (bigint_Not halfThree))"
      using n Hb by simp
    from AddSmall_value [OF ne bd]
    obtain base k where a: "bigint_AddSmall (bigint_Not halfThree) 1 = Some (base, k)"
        "length base = 12" "limbs_value base = limbs_value (bigint_Not halfThree) + 1"
      by (auto simp: n(2))
    have "int (limbs_value base) = 2 ^ 384 - int H"
      using n(1) a(3) by (simp add: algebra_simps)
    also have "\<dots> = x mod 2 ^ 384"
    proof -
      have "(2 ^ 384 - int H) mod 2 ^ 384 = 2 ^ 384 - int H"
        using Hb by (intro mod_pos_pos_trivial) simp_all
      moreover have "(2 ^ 384 - int H) mod 2 ^ 384 = (- int H) mod 2 ^ 384"
        by (metis diff_conv_add_uminus mod_add_self1)
      ultimately show ?thesis by (simp add: xn)
    qed
    finally have v: "int (limbs_value base) = x mod 2 ^ 384" .
    have "TritsToBytes_limbs trits = Some base"
      using True a(1) by (simp add: TritsToBytes_limbs_def HashTrinarySize_def ts_def)
    with a(2) v show ?thesis by (auto simp: x_def ts_def)
  next
    case False
    have vr: "list_all ValidTrit (rev ts)" using vts by (simp add: list_all_iff)
    have z: "limbs_value (drop 1 (replicate 12 (0 :: 32 word))) = 0"
      by (simp add: limbs_value_zero_iff list_all_iff)
    have z0: "limbs_value (replicate 12 (0 :: 32 word)) = 0"
      by (simp add: limbs_value_zero_iff list_all_iff)
    have "\<exists>base1 sz. fold_option TritsToBytes_step (rev ts) (replicate 12 0, 1) = Some (base1, sz)
            \<and> length base1 = 12
            \<and> limbs_value base1
                = foldl (\<lambda>v e. 3 * v + unat (e + 1)) (limbs_value (replicate 12 (0 :: 32 word))) (rev ts)"
      by (rule fold_step_value [OF vr _ _ _ z, of 0]) (simp_all add: z0 lts)
    then obtain base1 sz where f: "fold_option TritsToBytes_step (rev ts) (replicate 12 0, 1) = Some (base1, sz)"
        "length base1 = 12" "limbs_value base1 = U"
      by (auto simp: z0 foldl_rev_digits U_def)
    have U0: "U \<noteq> 0"
      using digits_value_zero [OF vts] False by (auto simp: U_def)
    then have nn: "\<not> bigint_IsNull base1" by (simp add: IsNull_value f(3))
    have cmp: "bigint_MustCmp halfThree base1
                 = Some (if H < U then - 1 else if H = U then 0 else 1)"
      using MustCmp_value [of halfThree base1] by (simp add: lH f(2,3) H_def)
    have xb: "- int H \<le> x" "x \<le> int H"
      using trits_value_bound [OF vts] by (simp_all add: x_def lts H_def halfThree_bt_max)
    show ?thesis
    proof (cases "H \<le> U")
      case True
      from MustSub_value [of base1 halfThree] True
      obtain zs where s: "bigint_MustSub base1 halfThree = Some zs" "length zs = 12"
          "limbs_value zs + H = U"
        by (auto simp: lH f(2,3) H_def)
      have "int (limbs_value zs) = x" using s(3) HU by linarith
      moreover have "x mod 2 ^ 384 = x"
        using xb Hb True HU by (intro mod_pos_pos_trivial) simp_all
      ultimately have v: "int (limbs_value zs) = x mod 2 ^ 384" by simp
      have "TritsToBytes_limbs trits = Some zs"
        using False f(1) nn cmp True s(1)
        by (simp add: TritsToBytes_limbs_def HashTrinarySize_def IntLength_def ReverseTrits_def
            ts_def [symmetric])
      with s(2) v show ?thesis by (auto simp: x_def ts_def)
    next
      case False
      then have lt: "U < H" by simp
      from MustSub_value [of halfThree base1] lt
      obtain tmp where s: "bigint_MustSub halfThree base1 = Some tmp" "length tmp = 12"
          "limbs_value tmp + U = H"
        by (auto simp: lH f(2,3) H_def)
      from Not_value [of tmp]
      have n: "limbs_value (bigint_Not tmp) + limbs_value tmp + 1 = 2 ^ 384"
        "length (bigint_Not tmp) = 12" by (simp_all add: s(2))
      have tp: "0 < limbs_value tmp" using s(3) lt by simp
      have ne: "bigint_Not tmp \<noteq> []" using n(2) by auto
      have bd: "limbs_value (bigint_Not tmp) + unat (1 :: 32 word)
                  < 2 ^ (32 * length (bigint_Not tmp))"
        using n tp by simp
      from AddSmall_value [OF ne bd]
      obtain base k where a: "bigint_AddSmall (bigint_Not tmp) 1 = Some (base, k)"
          "length base = 12" "limbs_value base = limbs_value (bigint_Not tmp) + 1"
        by (auto simp: n(2))
      have "int (limbs_value base) + int (limbs_value tmp) = 2 ^ 384"
        using n(1) a(3) by (simp add: algebra_simps)
      moreover have "int (limbs_value tmp) = - x" using s(3) HU by linarith
      ultimately have e: "int (limbs_value base) = 2 ^ 384 + x" by simp
      have "(2 ^ 384 + x) mod 2 ^ 384 = 2 ^ 384 + x"
        using xb Hb lt HU by (intro mod_pos_pos_trivial) simp_all
      then have "x mod 2 ^ 384 = 2 ^ 384 + x" by simp
      with e have v: "int (limbs_value base) = x mod 2 ^ 384" by simp
      have "TritsToBytes_limbs trits = Some base"
        using \<open>\<not> list_all (\<lambda>e. e = - 1) ts\<close> f(1) nn cmp lt s(1) a(1)
        by (simp add: TritsToBytes_limbs_def HashTrinarySize_def IntLength_def ReverseTrits_def
            ts_def [symmetric])
      with a(2) v show ?thesis by (auto simp: x_def ts_def)
    qed
  qed
qed


subsection \<open>Bytes and limbs\<close>

lemma limb_bytes_inverse:
  "ucast (ucast x :: 8 word) OR push_bit 8 (ucast (ucast (drop_bit 8 x) :: 8 word))
     OR push_bit 16 (ucast (ucast (drop_bit 16 x) :: 8 word))
     OR push_bit 24 (ucast (ucast (drop_bit 24 x) :: 8 word)) = (x :: 32 word)"
  apply (rule bit_word_eqI)
  apply (auto simp: bit_simps)
  subgoal for n by (cases "24 \<le> n") simp_all
  done

lemma limbs_of_bytes_of_limbs: "limbs_of_bytes (bytes_of_limbs base) = base"
  by (induction base) (simp_all add: bytes_of_limbs_def limb_bytes_def limb_bytes_inverse)

lemma length_bytes_of_limbs: "length (bytes_of_limbs base) = 4 * length base"
  by (induction base) (simp_all add: bytes_of_limbs_def limb_bytes_def)

lemma unat_byte: "unat (ucast (y :: 32 word) :: 8 word) = unat y mod 256"
  by (simp add: unsigned_ucast_eq take_bit_eq_mod)

lemma unat_drop: "unat (drop_bit k (x :: 32 word)) = unat x div 2 ^ k"
  by (simp only: unat_drop_bit_eq) (simp add: drop_bit_eq_div)

lemma split_bytes:
  assumes "(n :: nat) < 4294967296"
  shows "n mod 256 + 256 * (n div 256 mod 256 + 256 * (n div 65536 mod 256
           + 256 * (n div 16777216 mod 256))) = n"
proof -
  define q1 where "q1 = n div 256"
  define q2 where "q2 = q1 div 256"
  define q3 where "q3 = q2 div 256"
  have d: "n div 65536 = q2" "n div 16777216 = q3"
    by (simp_all add: q1_def q2_def q3_def div_mult2_eq [symmetric])
  have "q3 < 256"
    using assms unfolding d(2) [symmetric] by (simp add: less_mult_imp_div_less)
  then have m3: "q3 mod 256 = q3" by simp
  have e: "n mod 256 + 256 * q1 = n" "q1 mod 256 + 256 * q2 = q1" "q2 mod 256 + 256 * q3 = q2"
    by (simp_all add: q1_def q2_def q3_def)
  have "n mod 256 + 256 * (q1 mod 256 + 256 * (q2 mod 256 + 256 * q3)) = n"
    by (simp only: e)
  then show ?thesis
    by (simp only: d m3 q1_def [symmetric])
qed

lemma limb_bytes_value: "bytes_value_le (limb_bytes x @ bs) = unat x + 4294967296 * bytes_value_le bs"
proof -
  have "bytes_value_le (limb_bytes x @ bs)
          = unat x mod 256 + 256 * (unat x div 256 mod 256 + 256 * (unat x div 65536 mod 256
              + 256 * (unat x div 16777216 mod 256 + 256 * bytes_value_le bs)))"
    by (simp add: limb_bytes_def unat_byte unat_drop)
  also have "\<dots> = (unat x mod 256 + 256 * (unat x div 256 mod 256 + 256 * (unat x div 65536 mod 256
              + 256 * (unat x div 16777216 mod 256)))) + 4294967296 * bytes_value_le bs"
    by (simp add: algebra_simps)
  finally show ?thesis
    by (simp only: split_bytes [OF unat_lt_32])
qed

lemma bytes_of_limbs_value: "bytes_value_le (bytes_of_limbs base) = limbs_value base"
proof (induction base)
  case Nil
  show ?case by (simp add: bytes_of_limbs_def)
next
  case (Cons x xs)
  have "bytes_of_limbs (x # xs) = limb_bytes x @ bytes_of_limbs xs"
    by (simp add: bytes_of_limbs_def)
  then show ?case by (simp add: limb_bytes_value Cons.IH)
qed

lemma top_limb_value:
  assumes "length base = 12"
  shows "limbs_value base = limbs_value (take 11 base) + 2 ^ 352 * unat (base ! 11)"
    and "limbs_value (take 11 base) < 2 ^ 352"
proof -
  have "base = take 11 base @ [base ! 11]"
    using assms by (metis Suc_eq_plus1 lessI numeral_plus_one semiring_norm(5,8) take_Suc_conv_app_nth take_all order_refl)
  then have "limbs_value base = limbs_value (take 11 base @ [base ! 11])" by simp
  also have "\<dots> = limbs_value (take 11 base) + 2 ^ 352 * unat (base ! 11)"
    using assms by (simp only: limbs_value_append) simp
  finally show "limbs_value base = limbs_value (take 11 base) + 2 ^ 352 * unat (base ! 11)" .
  show "limbs_value (take 11 base) < 2 ^ 352"
    using limbs_value_less [of "take 11 base"] assms by simp
qed

lemma top_limb_small:
  assumes "length base = 12"
  shows "unat (base ! 11) < 2 ^ 31 \<longleftrightarrow> limbs_value base < 2 ^ 383"
proof
  assume "unat (base ! 11) < 2 ^ 31"
  then have "unat (base ! 11) + 1 \<le> 2 ^ 31" by simp
  then have "2 ^ 352 * (unat (base ! 11) + 1) \<le> 2 ^ 352 * 2 ^ 31"
    by (intro mult_left_mono) simp_all
  then show "limbs_value base < 2 ^ 383"
    using top_limb_value [OF assms] by simp
next
  assume a: "limbs_value base < 2 ^ 383"
  show "unat (base ! 11) < 2 ^ 31"
  proof (rule ccontr)
    assume "\<not> unat (base ! 11) < 2 ^ 31"
    then have "2 ^ 31 \<le> unat (base ! 11)" by simp
    then have "2 ^ 352 * 2 ^ 31 \<le> 2 ^ 352 * unat (base ! 11)"
      by (intro mult_left_mono) simp_all
    with a top_limb_value(1) [OF assms] show False by simp
  qed
qed

lemma msb_value:
  assumes "length base = 12"
  shows "drop_bit 31 (base ! (IntLength - 1)) = 0 \<longleftrightarrow> limbs_value base < 2 ^ 383"
proof -
  have "IntLength - 1 = 11" by (simp add: IntLength_def)
  moreover have "drop_bit 31 (base ! 11) = 0 \<longleftrightarrow> unat (drop_bit 31 (base ! 11)) = 0"
    by (simp add: unat_eq_0)
  moreover have "unat (drop_bit 31 (base ! 11)) = unat (base ! 11) div 2 ^ 31"
    by (rule unat_drop)
  moreover have "unat (base ! 11) div 2 ^ 31 = 0 \<longleftrightarrow> unat (base ! 11) < 2 ^ 31"
    by (simp add: div_eq_0_iff)
  ultimately show ?thesis
    using top_limb_small [OF assms] by simp
qed

lemma drop_31_zero: "drop_bit 31 (w :: 32 word) = 0 \<longleftrightarrow> unat w < 2 ^ 31"
proof -
  have "drop_bit 31 w = 0 \<longleftrightarrow> unat (drop_bit 31 w) = 0"
    by (simp add: unat_eq_0)
  then show ?thesis
    by (simp add: unat_drop div_eq_0_iff)
qed


subsection \<open>Division by the radix\<close>

lemma unat_lt_64: "unat (x :: 64 word) < 18446744073709551616"
  using unsigned_less [of x] by simp

lemma unat_shift_or:
  assumes "unat (r :: 64 word) < 3"
  shows "unat (push_bit 32 r OR (ucast (x :: 32 word) :: 64 word)) = unat r * 4294967296 + unat x"
proof -
  have "push_bit 32 r + (ucast x :: 64 word) = push_bit 32 r OR ucast x"
    by (rule disjunctive_add) (auto simp: bit_simps dest: bit_imp_le_length)
  then have "unat (push_bit 32 r OR (ucast x :: 64 word)) = unat (push_bit 32 r + (ucast x :: 64 word))"
    by simp
  also have "\<dots> = unat (r * 4294967296 + (ucast x :: 64 word))"
    by (simp add: push_bit_eq_mult)
  also have "\<dots> = unat r * 4294967296 + unat x"
    using assms unat_lt_32 [of x]
    by (simp add: unat_word_ariths unat_ucast_32_64)
  finally show ?thesis .
qed

lemma div_radix_value:
  "length (fst (div_radix b)) = length b
   \<and> limbs_value b = 3 * limbs_value (fst (div_radix b)) + unat (snd (div_radix b))
   \<and> unat (snd (div_radix b)) < 3"
proof (induction b)
  case Nil
  show ?case by simp
next
  case (Cons x xs)
  define r where "r = div_radix xs"
  define lhs where "lhs = push_bit 32 (snd r) OR (ucast x :: 64 word)"
  define q where "q = (ucast (lhs div 3) :: 32 word)"
  define rm where "rm = (ucast (lhs mod 3) :: 32 word)"
  from Cons.IH have ih: "length (fst r) = length xs"
    "limbs_value xs = 3 * limbs_value (fst r) + unat (snd r)" "unat (snd r) < 3"
    by (simp_all add: r_def)
  have ul: "unat lhs = unat (snd r) * 4294967296 + unat x"
    unfolding lhs_def by (rule unat_shift_or [OF ih(3)])
  have lb: "unat lhs < 3 * 4294967296"
    using ih(3) unat_lt_32 [of x] by (simp add: ul)
  have ud: "unat (lhs div 3) = unat lhs div 3" "unat (lhs mod 3) = unat lhs mod 3"
    by (simp_all add: unat_div unat_mod)
  have uq: "unat q = unat lhs div 3"
    using lb by (simp add: q_def unat_ucast_64_32 ud)
  have um: "unat (ucast rm :: 64 word) = unat lhs mod 3"
    by (simp add: rm_def unat_ucast_32_64 unat_ucast_64_32 ud)
  have st: "div_radix (x # xs) = (q # fst r, ucast rm)"
    by (simp add: Let_def r_def [symmetric] lhs_def [symmetric] q_def rm_def)
  have "limbs_value (x # xs) = unat lhs + 4294967296 * (3 * limbs_value (fst r))"
    by (simp add: ih(2) ul algebra_simps)
  also have "unat lhs = 3 * (unat lhs div 3) + unat lhs mod 3" by simp
  finally have "limbs_value (x # xs) = 3 * limbs_value (q # fst r) + unat (ucast rm :: 64 word)"
    by (simp add: uq um algebra_simps)
  then show ?case
    unfolding st using ih(1) um by simp
qed

lemma digit_unique:
  fixes a b c d :: nat
  assumes "a + 3 * b = c + 3 * d" and "a < 3" and "c < 3"
  shows "a = c \<and> b = d"
  using assms by presburger

lemma ucast_digit:
  assumes "unat (rem :: 64 word) = unat (t + 1 :: 8 word)"
  shows "(ucast rem :: 8 word) - 1 = t"
proof -
  have "unat (ucast rem :: 8 word) = unat rem mod 256"
    by (simp add: unsigned_ucast_eq take_bit_eq_mod)
  also have "\<dots> = unat (t + 1)"
  proof -
    have "unat (t + 1) < 256" using unsigned_less [of "t + 1", where ?'a = nat] by simp
    then show ?thesis using assms by simp
  qed
  finally have "(ucast rem :: 8 word) = t + 1"
    by (simp only: word_unat_eq_iff)
  then show ?thesis by simp
qed

lemma BytesToTrits_loop_value:
  assumes "list_all ValidTrit ts" and "limbs_value base = digits_value ts + 3 ^ length ts * m"
  shows "BytesToTrits_loop (length ts) base = ts"
  using assms
proof (induction ts arbitrary: base)
  case Nil
  show ?case by simp
next
  case (Cons t ts)
  define r where "r = div_radix base"
  note d = div_radix_value [of base, folded r_def]
  have vt: "unat (t + 1) < 3" using Cons.prems(1) by (simp add: digit_cases(1))
  have "unat (snd r) + 3 * limbs_value (fst r)
          = unat (t + 1) + 3 * (digits_value ts + 3 ^ length ts * m)"
    using d Cons.prems(2) by (simp add: algebra_simps)
  from digit_unique [OF this _ vt] d
  have u: "unat (snd r) = unat (t + 1)" "limbs_value (fst r) = digits_value ts + 3 ^ length ts * m"
    by simp_all
  from Cons.prems(1) have "list_all ValidTrit ts" by simp
  from Cons.IH [OF this u(2)] ucast_digit [OF u(1)]
  show ?case by (simp add: Let_def r_def [symmetric])
qed

subsection \<open>From limbs back to trits\<close>

lemma trits_value_zero:
  "list_all ValidTrit ts \<Longrightarrow> trits_value ts = 0 \<Longrightarrow> ts = replicate (length ts) 0"
proof (induction ts)
  case Nil
  show ?case by simp
next
  case (Cons t ts)
  then have "sint t = - 1 \<or> sint t = 0 \<or> sint t = 1" by (simp add: sint_trit)
  with Cons.prems(2) have "sint t = 0 \<and> trits_value ts = 0" by (auto; presburger)
  then have "t = 0" "trits_value ts = 0" by (simp_all add: signed_eq_0_iff)
  with Cons show ?case by simp
qed

lemma BytesToTrits_of_limbs:
  assumes "length base = 12" and "list_all ValidTrit ts" and "length ts = 242"
    and "int (limbs_value base) = trits_value ts mod 2 ^ 384"
  shows "BytesToTrits (bigint_Reverse (bytes_of_limbs base)) = Inr (ts @ [0])"
proof -
  define x where "x = trits_value ts"
  define H where "H = limbs_value halfThree"
  define U where "U = digits_value ts"
  define V where "V = limbs_value base"
  have HU: "int U = x + int H"
    using digits_value_trits_value [OF assms(2)]
    by (simp add: U_def x_def H_def assms(3) halfThree_bt_max)
  have Hb: "0 < H" "H < 2 ^ 383" using halfThree_pos by (simp_all add: H_def)
  have lH: "length halfThree = 12" by (rule halfThree_value(2))
  have xb: "- int H \<le> x" "x \<le> int H"
    using trits_value_bound [OF assms(2)] by (simp_all add: x_def assms(3) H_def halfThree_bt_max)
  have Vx: "int V = x mod 2 ^ 384" using assms(4) by (simp add: V_def x_def)
  have len: "length (bigint_Reverse (bytes_of_limbs base)) = HashBytesSize"
    by (simp add: bigint_Reverse_def length_bytes_of_limbs assms(1) HashBytesSize_def)
  have lb: "limbs_of_bytes (bigint_Reverse (bigint_Reverse (bytes_of_limbs base))) = base"
    by (simp add: bigint_Reverse_def limbs_of_bytes_of_limbs)
  have start: "BytesToTrits (bigint_Reverse (bytes_of_limbs base))
      = (if bigint_IsNull base then Inr (replicate HashTrinarySize 0)
         else (case BytesToTrits_offset base of
                 None \<Rightarrow> Inl Panic
               | Some (flipTrits, base1) \<Rightarrow>
                   (let t = BytesToTrits_loop (HashTrinarySize - 1) base1 @ [0]
                    in Inr (if flipTrits then map uminus t else t))))"
    by (simp add: BytesToTrits_def len lb Let_def)
  show ?thesis
  proof (cases "x = 0")
    case True
    then have "V = 0" using Vx by simp
    then have n: "bigint_IsNull base" by (simp add: IsNull_value V_def)
    from trits_value_zero [OF assms(2)] True have "ts = replicate 242 0"
      by (simp add: x_def assms(3))
    then have "ts @ [0] = replicate 243 0"
      by (metis replicate_app_Cons_same replicate_append_same append_Nil2 replicate_Suc
          eval_nat_numeral(3) Suc_numeral semiring_norm(2,8) replicate_0 append_Cons append_Nil)
    with n show ?thesis by (simp add: start HashTrinarySize_def)
  next
    case False
    have "\<exists>base1. BytesToTrits_offset base = Some (False, base1) \<and> limbs_value base1 = U
            \<and> V \<noteq> 0"
    proof (cases "0 < x")
      case True
      then have "x mod 2 ^ 384 = x"
        using xb Hb by (intro mod_pos_pos_trivial) simp_all
      then have Vv: "int V = x" using Vx by simp
      then have "V < 2 ^ 383" using xb Hb by linarith
      then have msb: "drop_bit 31 (base ! (IntLength - 1)) = 0"
        by (simp only: msb_value [OF assms(1)] V_def)
      have "limbs_value base + limbs_value halfThree < 2 ^ (32 * length base)"
        using Vv xb Hb by (simp add: assms(1) V_def [symmetric] H_def [symmetric])
      from MustAdd_value [OF _ this]
      obtain zs where a: "bigint_MustAdd base halfThree = Some zs" "limbs_value zs = V + H"
        by (auto simp: assms(1) lH V_def H_def)
      have "limbs_value zs = U" using a(2) Vv HU by linarith
      moreover have "V \<noteq> 0" using Vv True by auto
      ultimately show ?thesis using a(1) msb by (simp add: BytesToTrits_offset_def)
    next
      case f: False
      with False have neg: "x < 0" by simp
      have "(2 ^ 384 + x) mod 2 ^ 384 = 2 ^ 384 + x"
        using xb Hb neg by (intro mod_pos_pos_trivial) simp_all
      then have "x mod 2 ^ 384 = 2 ^ 384 + x" by simp
      then have Vv: "int V = 2 ^ 384 + x" using Vx by simp
      have p: "(2 :: int) ^ 384 = 2 * 2 ^ 383" by simp
      have "int H < 2 ^ 383" using Hb(2) by simp
      with Vv xb p have "2 ^ 383 \<le> int V" by linarith
      then have nV: "\<not> V < 2 ^ 383" by simp
      then have V0: "V \<noteq> 0" by auto
      from nV have msb: "drop_bit 31 (base ! (IntLength - 1)) \<noteq> 0"
        by (simp only: msb_value [OF assms(1)] V_def not_False_eq_True)
      from Not_value [of base]
      have n: "limbs_value (bigint_Not base) + V + 1 = 2 ^ 384" "length (bigint_Not base) = 12"
        by (simp_all add: assms(1) V_def)
      have "int (limbs_value (bigint_Not base)) + int V + 1 = 2 ^ 384"
        using n(1) by (metis (mono_tags) of_nat_1 of_nat_add of_nat_numeral of_nat_power)
      with Vv have nv: "int (limbs_value (bigint_Not base)) = - x - 1" by linarith
      then have nlt: "limbs_value (bigint_Not base) < H" using xb by linarith
      have cmp: "bigint_MustCmp (bigint_Not base) halfThree = Some (- 1)"
        using MustCmp_value [of "bigint_Not base" halfThree] nlt by (simp add: n(2) lH H_def)
      have ne: "bigint_Not base \<noteq> []" using n(2) by auto
      have bd: "limbs_value (bigint_Not base) + unat (1 :: 32 word) < 2 ^ (32 * length (bigint_Not base))"
        using nlt Hb by (simp add: n(2))
      from AddSmall_value [OF ne bd]
      obtain base2 k where a: "bigint_AddSmall (bigint_Not base) 1 = Some (base2, k)"
          "length base2 = 12" "limbs_value base2 = limbs_value (bigint_Not base) + 1"
        by (auto simp: n(2))
      have b2: "int (limbs_value base2) = - x" using a(3) nv by simp
      then have "limbs_value base2 \<le> limbs_value halfThree"
        using xb by (simp add: H_def [symmetric])
      from MustSub_value [of halfThree base2, OF _ this]
      obtain zs where s: "bigint_MustSub halfThree base2 = Some zs" "limbs_value zs + limbs_value base2 = H"
        by (auto simp: lH a(2) H_def)
      have "limbs_value zs = U" using s(2) b2 HU by linarith
      with msb cmp a(1) s(1) V0 show ?thesis
        by (simp add: BytesToTrits_offset_def Let_def)
    qed
    then obtain base1 where o: "BytesToTrits_offset base = Some (False, base1)" "limbs_value base1 = U"
      and V0: "V \<noteq> 0"
      by blast
    have nn: "\<not> bigint_IsNull base"
      using V0 by (simp add: IsNull_value V_def)
    have "limbs_value base1 = digits_value ts + 3 ^ length ts * 0" using o(2) by (simp add: U_def)
    from BytesToTrits_loop_value [OF assms(2) this]
    have "BytesToTrits_loop (HashTrinarySize - 1) base1 = ts"
      by (simp add: assms(3) HashTrinarySize_def)
    with nn o(1) show ?thesis by (simp add: start)
  qed
qed


subsection \<open>The first byte\<close>

lemma bit_31_drop: "bit (w :: 32 word) 31 \<longleftrightarrow> drop_bit 31 w \<noteq> 0"
proof -
  have z: "n = 0" if "bit w (31 + n)" for n
    using bit_imp_le_length [OF that] by simp
  have b: "bit w 31" if "bit w (31 + n)" for n
    using that z [OF that] by simp
  have "drop_bit 31 w = of_bool (bit w 31)"
    by (intro bit_word_eqI) (auto simp: bit_simps dest: z b)
  then show ?thesis by simp
qed

lemma last_bytes_of_limbs:
  "base \<noteq> [] \<Longrightarrow> last (bytes_of_limbs base) = ucast (drop_bit 24 (last base))"
  by (induction base) (auto simp: bytes_of_limbs_def limb_bytes_def)

lemma first_byte_high_bit:
  assumes "length base = 12"
  shows "bit (hd (bigint_Reverse (bytes_of_limbs base))) 7 \<longleftrightarrow> \<not> limbs_value base < 2 ^ 383"
proof -
  have ne: "base \<noteq> []" "bytes_of_limbs base \<noteq> []"
    using assms length_bytes_of_limbs [of base] by auto
  have l: "last base = base ! (IntLength - 1)"
    using assms ne(1) by (simp add: last_conv_nth IntLength_def)
  have "hd (bigint_Reverse (bytes_of_limbs base)) = ucast (drop_bit 24 (base ! (IntLength - 1)))"
    using ne by (simp add: bigint_Reverse_def hd_rev last_bytes_of_limbs l)
  moreover have "bit (ucast (drop_bit 24 w) :: 8 word) 7 \<longleftrightarrow> bit w 31" for w :: "32 word"
    by (simp add: bit_simps)
  ultimately show ?thesis
    by (simp only: bit_31_drop msb_value [OF assms])
qed

subsection \<open>Trytes of a hash\<close>

lemma alphabet_entries_all: "list_all alphabet_entry TryteAlphabet"
  by code_simp

lemma alphabet_entries: "c \<in> set TryteAlphabet \<Longrightarrow> alphabet_entry c"
  using alphabet_entries_all by (simp add: list_all_iff)

lemma letters_in_alphabet: "list_all (\<lambda>n. char_of n \<in> set TryteAlphabet) [65..<91::nat]"
  by code_simp

lemma tryte_char_in_alphabet:
  assumes "tryte_char c"
  shows "c \<in> set TryteAlphabet"
proof (cases "c = CHR ''9''")
  case True
  then show ?thesis by (simp add: TryteAlphabet_def)
next
  case False
  with assms have r: "65 \<le> (of_char c :: nat)" "(of_char c :: nat) \<le> 90"
    by (simp_all add: tryte_char_def)
  then have m: "(of_char c :: nat) \<in> set [65..<91]"
    by (simp only: set_upt atLeastLessThan_iff, simp)
  have a: "\<forall>n\<in>set [65..<91::nat]. char_of n \<in> set TryteAlphabet"
    using letters_in_alphabet by (simp only: list_all_iff)
  from bspec [OF a m] have "char_of (of_char c :: nat) \<in> set TryteAlphabet" .
  then show ?thesis by simp
qed

lemma TrytesToTrits_loop_valid:
  assumes "list_all tryte_char cs"
  shows "\<exists>t. TrytesToTrits_loop cs = Some t \<and> length t = 3 * length cs \<and> list_all ValidTrit t"
  using assms
proof (induction cs)
  case Nil
  show ?case by simp
next
  case (Cons c cs)
  then obtain t where t: "TrytesToTrits_loop cs = Some t" "length t = 3 * length cs"
      "list_all ValidTrit t" by auto
  from Cons.prems have "c \<in> set TryteAlphabet" by (simp add: tryte_char_in_alphabet)
  from alphabet_entries [OF this]
  have e: "0 \<le> strings_Index TryteAlphabet c"
    "strings_Index TryteAlphabet c < int (length TryteToTritsLUT)"
    "length (TryteToTritsLUT ! nat (strings_Index TryteAlphabet c)) = 3"
    "list_all ValidTrit (TryteToTritsLUT ! nat (strings_Index TryteAlphabet c))"
    by (simp_all only: alphabet_entry_def)
  define idx where "idx = strings_Index TryteAlphabet c"
  have "TrytesToTrits_loop (c # cs) = Some (TryteToTritsLUT ! nat idx @ t)"
    using e(1,2) t(1) by (simp add: Let_def idx_def)
  moreover have "length (TryteToTritsLUT ! nat idx @ t) = 3 * length (c # cs)"
    using e(3) t(2) by (simp add: idx_def)
  moreover have "list_all ValidTrit (TryteToTritsLUT ! nat idx @ t)"
    using e(4) t(3) by (simp add: idx_def)
  ultimately show ?case by blast
qed

subsection \<open>The bytes of a hash\<close>

lemma ValidTrytes_chars: "ValidTrytes h = None \<Longrightarrow> list_all tryte_char h"
  by (simp add: ValidTrytes_def split: if_splits)

lemma list_all_take: "list_all P xs \<Longrightarrow> list_all P (take n xs)"
  by (auto simp: list_all_iff dest: in_set_takeD)

lemma twos_complement_sign:
  fixes x :: int
  assumes "\<bar>x\<bar> < 2 ^ 383"
  shows "x mod 2 ^ 384 < 2 ^ 383 \<longleftrightarrow> 0 \<le> x"
proof (cases "0 \<le> x")
  case True
  have p: "(2 :: int) ^ 384 = 2 * 2 ^ 383" by simp
  from True assms have "x < 2 ^ 384" unfolding p by linarith
  with True have "x mod 2 ^ 384 = x" by (simp add: mod_pos_pos_trivial)
  with True assms show ?thesis by simp
next
  case False
  have p: "(2 :: int) ^ 384 = 2 * 2 ^ 383" by simp
  from False assms have b: "0 \<le> x + 2 ^ 384" "x + 2 ^ 384 < 2 ^ 384" unfolding p by linarith+
  have "x mod 2 ^ 384 = (x + 2 ^ 384) mod 2 ^ 384" by simp
  also have "\<dots> = x + 2 ^ 384" using b by (rule mod_pos_pos_trivial)
  finally have "x mod 2 ^ 384 = x + 2 ^ 384" .
  with False assms show ?thesis unfolding p by linarith
qed

lemma TritsToBytes_value:
  assumes "length trits = HashTrinarySize" and "list_all ValidTrit trits"
  shows "\<exists>base. TritsToBytes trits = Inr (bigint_Reverse (bytes_of_limbs base))
           \<and> length base = 12
           \<and> int (limbs_value base) = trits_value (take (HashTrinarySize - 1) trits) mod 2 ^ 384"
proof -
  have l: "length trits = 243" using assms(1) by (simp add: HashTrinarySize_def)
  from TritsToBytes_limbs_value [OF l assms(2)]
  obtain base where b: "TritsToBytes_limbs trits = Some base" "length base = 12"
    "int (limbs_value base) = trits_value (take 242 trits) mod 2 ^ 384" by blast
  have e: "TritsToBytes trits = Inr (bigint_Reverse (bytes_of_limbs base))"
    using assms(1) b(1) by (simp add: TritsToBytes_def CanBeHash_def)
  have h: "HashTrinarySize - 1 = 242" by (simp add: HashTrinarySize_def)
  from e b(2,3) show ?thesis unfolding h by blast
qed

lemma limbs_value_max:
  "limbs_value xs + 1 = 2 ^ (32 * length xs) \<Longrightarrow> list_all (\<lambda>x. x = - 1) xs"
proof (induction xs)
  case Nil
  show ?case by simp
next
  case (Cons x xs)
  define P where "P = (2 :: nat) ^ (32 * length xs)"
  define v where "v = limbs_value xs"
  have e: "unat x + 4294967296 * v + 1 = 4294967296 * P"
    using Cons.prems by (simp add: P_def v_def power_add)
  have vP: "v < P" using limbs_value_less [of xs] by (simp add: v_def P_def)
  have ux: "unat x < 4294967296" by (rule unat_lt_32)
  have vp: "v + 1 = P"
  proof (rule ccontr)
    assume "v + 1 \<noteq> P"
    with vP have "v + 2 \<le> P" by simp
    then have "4294967296 * (v + 2) \<le> 4294967296 * P" by (rule mult_le_mono2)
    with e ux show False by simp
  qed
  from e have "unat x = 4294967295" unfolding vp [symmetric] by simp
  then have "unat x = unat (- 1 :: 32 word)" by (simp only: unat_max_32)
  then have x: "x = - 1" by (simp only: word_unat_eq_iff)
  from vp have "limbs_value xs + 1 = 2 ^ (32 * length xs)" by (simp add: v_def P_def)
  from Cons.IH [OF this] x show ?case by simp
qed

lemma bytes_value_le_zeros: "bytes_value_le (replicate n 0) = 0"
  by (induction n) simp_all

lemma bytes_of_limbs_replicate:
  "bytes_of_limbs (replicate 12 (- 1)) = replicate 48 255"
  "bytes_of_limbs (replicate 12 0) = replicate 48 0"
  by code_simp+

text \<open>
  C1, as the code has it. For every slice of 243 valid trits, \<open>TritsToBytes\<close> returns 48
  bytes that are the big-endian two's complement of \<open>x\<close>, the value of the first 242 trits:
  read as an unsigned number they are \<open>x mod 2 ^ 384\<close>. The offset \<open>halfThree\<close> that the loop
  accumulates with the digits is subtracted again before the bytes are returned, so the
  high bit of the first byte is the sign of \<open>x\<close>: it is set exactly when \<open>x\<close> is negative.
\<close>

theorem TritsToBytes_twos_complement:
  assumes "length trits = HashTrinarySize" and "list_all ValidTrit trits"
  shows "\<exists>bs. TritsToBytes trits = Inr bs \<and> length bs = HashBytesSize
           \<and> int (bytes_value_be bs)
               = trits_value (take (HashTrinarySize - 1) trits) mod 2 ^ 384
           \<and> (bit (hd bs) 7 \<longleftrightarrow> trits_value (take (HashTrinarySize - 1) trits) < 0)"
proof -
  define x where "x = trits_value (take (HashTrinarySize - 1) trits)"
  from TritsToBytes_value [OF assms]
  obtain base where b: "TritsToBytes trits = Inr (bigint_Reverse (bytes_of_limbs base))"
    "length base = 12" "int (limbs_value base) = x mod 2 ^ 384"
    unfolding x_def by blast
  define bs where "bs = bigint_Reverse (bytes_of_limbs base)"
  have len: "length bs = HashBytesSize"
    by (simp add: bs_def bigint_Reverse_def length_bytes_of_limbs b(2) HashBytesSize_def)
  have val: "int (bytes_value_be bs) = x mod 2 ^ 384"
    by (simp add: bs_def bytes_value_be_def bigint_Reverse_def bytes_of_limbs_value b(3))
  have v: "list_all ValidTrit (take (HashTrinarySize - 1) trits)"
    by (rule list_all_take [OF assms(2)])
  have "\<bar>x\<bar> \<le> bt_max 242"
    using trits_value_bound [OF v] assms(1) by (simp add: x_def HashTrinarySize_def)
  also have "\<dots> = int (limbs_value halfThree)" by (simp only: halfThree_bt_max)
  finally have "\<bar>x\<bar> \<le> int (limbs_value halfThree)" .
  moreover have "int (limbs_value halfThree) < 2 ^ 383"
    using halfThree_pos(2) by (metis of_nat_less_iff of_nat_numeral of_nat_power)
  ultimately have xb: "\<bar>x\<bar> < 2 ^ 383" by (rule le_less_trans)
  have "bit (hd bs) 7 \<longleftrightarrow> \<not> limbs_value base < 2 ^ 383"
    unfolding bs_def by (rule first_byte_high_bit [OF b(2)])
  also have "\<dots> \<longleftrightarrow> \<not> int (limbs_value base) < 2 ^ 383"
    by (metis of_nat_less_iff of_nat_numeral of_nat_power)
  also have "\<dots> \<longleftrightarrow> x < 0"
    by (simp only: b(3) twos_complement_sign [OF xb] not_le)
  finally have hb: "bit (hd bs) 7 \<longleftrightarrow> x < 0" .
  from b(1) len val hb show ?thesis
    unfolding bs_def x_def by blast
qed

theorem TritsToBytes_twos_complement_witness:
  "length (replicate 242 1 @ [0 :: 8 word]) = HashTrinarySize
   \<and> list_all ValidTrit (replicate 242 1 @ [0])
   \<and> (\<exists>bs. TritsToBytes (replicate 242 1 @ [0]) = Inr bs \<and> length bs = HashBytesSize
           \<and> int (bytes_value_be bs)
               = trits_value (take (HashTrinarySize - 1) (replicate 242 1 @ [0])) mod 2 ^ 384
           \<and> (bit (hd bs) 7
                \<longleftrightarrow> trits_value (take (HashTrinarySize - 1) (replicate 242 1 @ [0])) < 0))"
proof -
  have a: "length (replicate 242 1 @ [0 :: 8 word]) = HashTrinarySize"
    by (simp add: HashTrinarySize_def)
  have b: "list_all ValidTrit (replicate 242 1 @ [0])"
    by (simp add: list_all_iff ValidTrit_iff)
  from TritsToBytes_twos_complement [OF a b] a b show ?thesis by blast
qed

text \<open>
  Two hashes whose last trit is \<open>0\<close>. The trits \<open>-1, 0, 0, ...\<close> have the value \<open>-1\<close>, and
  the bytes are 48 times \<open>0xFF\<close>: the high bit of the first byte is set. The trits
  \<open>0, 0, 0, ...\<close> have the value \<open>0\<close>, and the bytes are all zero: they stand for \<open>0\<close>, not
  for \<open>0 + halfThree\<close>.
\<close>

theorem TritsToBytes_minus_one_counterexample:
  "list_all ValidTrit ((- 1) # replicate 242 0)
   \<and> length ((- 1) # replicate 242 (0 :: 8 word)) = HashTrinarySize
   \<and> last ((- 1) # replicate 242 (0 :: 8 word)) = 0
   \<and> TritsToBytes ((- 1) # replicate 242 0) = Inr (replicate 48 255)
   \<and> bit (hd (replicate 48 (255 :: 8 word))) 7
   \<and> TritsToBytes (replicate 243 0) = Inr (replicate 48 0)
   \<and> int (bytes_value_be (replicate 48 0))
       \<noteq> trits_value (take 242 (replicate 243 0)) + int (limbs_value halfThree)"
proof -
  let ?t = "(- 1) # replicate 242 (0 :: 8 word)"
  have v: "list_all ValidTrit ?t" by (simp add: list_all_iff ValidTrit_iff)
  have l: "length ?t = HashTrinarySize" by (simp add: HashTrinarySize_def)
  have z: "last ?t = 0" by simp
  have tk: "take (HashTrinarySize - 1) ?t = (- 1) # replicate 241 0"
    by (simp add: HashTrinarySize_def)
  have x: "trits_value (take (HashTrinarySize - 1) ?t) = - 1"
    unfolding tk by (simp add: trits_value_zeros list_all_iff)
  from TritsToBytes_value [OF l v]
  obtain base where b: "TritsToBytes ?t = Inr (bigint_Reverse (bytes_of_limbs base))"
    "length base = 12" "int (limbs_value base) = (- 1) mod 2 ^ 384"
    unfolding x by blast
  have "int (limbs_value base + 1) = int (2 ^ (32 * length base))"
    by (simp add: b(2,3))
  then have "limbs_value base + 1 = 2 ^ (32 * length base)"
    by (simp only: of_nat_eq_iff)
  from limbs_value_max [OF this] have "replicate (length base) (- 1) = base"
    by (intro replicate_length_same) (simp add: list_all_iff)
  then have "base = replicate 12 (- 1)" by (simp add: b(2))
  with b(1) have r1: "TritsToBytes ?t = Inr (replicate 48 255)"
    by (simp add: bytes_of_limbs_replicate bigint_Reverse_def)
  have hb: "bit (hd (replicate 48 (255 :: 8 word))) 7"
    by (simp add: eval_nat_numeral)
  let ?u = "replicate 243 (0 :: 8 word)"
  have v0: "list_all ValidTrit ?u" by (simp add: list_all_iff ValidTrit_iff)
  have l0: "length ?u = HashTrinarySize" by (simp add: HashTrinarySize_def)
  have x0: "trits_value (take (HashTrinarySize - 1) ?u) = 0"
    by (simp add: trits_value_zeros list_all_iff HashTrinarySize_def)
  from TritsToBytes_value [OF l0 v0]
  obtain base0 where b0: "TritsToBytes ?u = Inr (bigint_Reverse (bytes_of_limbs base0))"
    "length base0 = 12" "int (limbs_value base0) = 0 mod 2 ^ 384"
    unfolding x0 by blast
  from b0(3) have "limbs_value base0 = 0" by simp
  then have "list_all (\<lambda>x. x = 0) base0" by (simp only: limbs_value_zero_iff)
  then have "replicate (length base0) 0 = base0"
    by (intro replicate_length_same) (simp add: list_all_iff)
  then have "base0 = replicate 12 0" by (simp add: b0(2))
  with b0(1) have r2: "TritsToBytes ?u = Inr (replicate 48 0)"
    by (simp add: bytes_of_limbs_replicate bigint_Reverse_def)
  have "trits_value (take 242 ?u) = 0"
    by (simp add: trits_value_zeros list_all_iff)
  then have ne: "int (bytes_value_be (replicate 48 0))
       \<noteq> trits_value (take 242 ?u) + int (limbs_value halfThree)"
    using halfThree_pos(1) by (simp add: bytes_value_be_def bytes_value_le_zeros)
  from v l z r1 hb r2 ne show ?thesis by blast
qed

text \<open>
  C4. For every valid string \<open>h\<close> of 81 trytes the three conversions return, and
  \<open>BytesToTrits\<close> of \<open>TritsToBytes\<close> of the trits of \<open>h\<close> is these trits with the last one,
  at index 242, set to \<open>0\<close>.
\<close>

theorem hash_roundtrip:
  assumes "ValidTrytes h = None" and "length h = HashTrinarySize div 3"
  shows "\<exists>t bs. TrytesToTrits h = Inr t \<and> TritsToBytes t = Inr bs
           \<and> BytesToTrits bs = Inr (t[HashTrinarySize - 1 := 0])"
proof -
  from TrytesToTrits_loop_valid [OF ValidTrytes_chars [OF assms(1)]]
  obtain t where t: "TrytesToTrits_loop h = Some t" "length t = 3 * length h"
    "list_all ValidTrit t" by blast
  have lt: "length t = HashTrinarySize" using t(2) assms(2) by (simp add: HashTrinarySize_def)
  have r1: "TrytesToTrits h = Inr t" using assms(1) t(1) by (simp add: TrytesToTrits_def)
  from TritsToBytes_value [OF lt t(3)]
  obtain base where b: "TritsToBytes t = Inr (bigint_Reverse (bytes_of_limbs base))"
    "length base = 12"
    "int (limbs_value base) = trits_value (take (HashTrinarySize - 1) t) mod 2 ^ 384"
    by blast
  have v: "list_all ValidTrit (take (HashTrinarySize - 1) t)"
    by (rule list_all_take [OF t(3)])
  have l2: "length (take (HashTrinarySize - 1) t) = 242"
    using lt by (simp add: HashTrinarySize_def)
  from BytesToTrits_of_limbs [OF b(2) v l2 b(3)]
  have r3: "BytesToTrits (bigint_Reverse (bytes_of_limbs base))
              = Inr (take (HashTrinarySize - 1) t @ [0])" .
  have "t[HashTrinarySize - 1 := 0] = take (HashTrinarySize - 1) t @ [0]"
    using lt by (simp add: upd_conv_take_nth_drop HashTrinarySize_def)
  with r1 b(1) r3 show ?thesis by simp
qed

theorem hash_roundtrip_witness:
  "ValidTrytes ''ABCDEFGHIJKLMNOPQRSTUVWXYZ9ABCDEFGHIJKLMNOPQRSTUVWXYZ9ABCDEFGHIJKLMNOPQRSTUVWXYZ9'' = None
   \<and> length ''ABCDEFGHIJKLMNOPQRSTUVWXYZ9ABCDEFGHIJKLMNOPQRSTUVWXYZ9ABCDEFGHIJKLMNOPQRSTUVWXYZ9''
       = HashTrinarySize div 3
   \<and> (\<exists>t bs. TrytesToTrits ''ABCDEFGHIJKLMNOPQRSTUVWXYZ9ABCDEFGHIJKLMNOPQRSTUVWXYZ9ABCDEFGHIJKLMNOPQRSTUVWXYZ9'' = Inr t
         \<and> TritsToBytes t = Inr bs
         \<and> BytesToTrits bs = Inr (t[HashTrinarySize - 1 := 0]))"
proof -
  have a: "ValidTrytes ''ABCDEFGHIJKLMNOPQRSTUVWXYZ9ABCDEFGHIJKLMNOPQRSTUVWXYZ9ABCDEFGHIJKLMNOPQRSTUVWXYZ9'' = None"
    by code_simp
  have b: "length ''ABCDEFGHIJKLMNOPQRSTUVWXYZ9ABCDEFGHIJKLMNOPQRSTUVWXYZ9ABCDEFGHIJKLMNOPQRSTUVWXYZ9''
       = HashTrinarySize div 3"
    by (simp add: HashTrinarySize_def)
  from hash_roundtrip [OF a b] a b show ?thesis by blast
qed

end
